theory Spec2Isabelle
  imports Main
begin

section \<open>Strings\<close>

text \<open>
  Python strings are modelled as \<^typ>\<open>string\<close>: a character is a code point below 256, so
  the development ranges over ASCII and Latin-1 text, which is what the directory's result
  pages, the browser's error messages and the address column hold.  \<open>lower\<close> is \<^verbatim>\<open>str.lower\<close>,
  which on these characters lowers the 26 ASCII capitals and the 30 Latin-1 capitals;
  \<open>startswith\<close> is \<^verbatim>\<open>str.startswith\<close> and \<open>contains p s\<close> is \<^verbatim>\<open>p in s\<close>.
\<close>

definition lower_char :: "char \<Rightarrow> char" where
  "lower_char c =
     (case map_of
        (zip (''ABCDEFGHIJKLMNOPQRSTUVWXYZ'' @
           [CHR 0xC0, CHR 0xC1, CHR 0xC2, CHR 0xC3, CHR 0xC4, CHR 0xC5, CHR 0xC6, CHR 0xC7,
           CHR 0xC8, CHR 0xC9, CHR 0xCA, CHR 0xCB, CHR 0xCC, CHR 0xCD, CHR 0xCE, CHR 0xCF,
           CHR 0xD0, CHR 0xD1, CHR 0xD2, CHR 0xD3, CHR 0xD4, CHR 0xD5, CHR 0xD6, CHR 0xD8,
           CHR 0xD9, CHR 0xDA, CHR 0xDB, CHR 0xDC, CHR 0xDD, CHR 0xDE])
             (''abcdefghijklmnopqrstuvwxyz'' @
           [CHR 0xE0, CHR 0xE1, CHR 0xE2, CHR 0xE3, CHR 0xE4, CHR 0xE5, CHR 0xE6, CHR 0xE7,
           CHR 0xE8, CHR 0xE9, CHR 0xEA, CHR 0xEB, CHR 0xEC, CHR 0xED, CHR 0xEE, CHR 0xEF,
           CHR 0xF0, CHR 0xF1, CHR 0xF2, CHR 0xF3, CHR 0xF4, CHR 0xF5, CHR 0xF6, CHR 0xF8,
           CHR 0xF9, CHR 0xFA, CHR 0xFB, CHR 0xFC, CHR 0xFD, CHR 0xFE])) c of
        Some l \<Rightarrow> l
      | None \<Rightarrow> c)"

definition lower :: "string \<Rightarrow> string" where
  "lower s = map lower_char s"

fun startswith :: "string \<Rightarrow> string \<Rightarrow> bool" where
  "startswith s [] = True"
| "startswith [] (p # ps) = False"
| "startswith (c # cs) (p # ps) = (c = p \<and> startswith cs ps)"

fun contains :: "string \<Rightarrow> string \<Rightarrow> bool" where
  "contains p [] = (p = [])"
| "contains p (c # cs) = (startswith (c # cs) p \<or> contains p cs)"

section \<open>The collaborators\<close>

text \<open>
  An exception is carried by its message (\<^verbatim>\<open>str(e)\<close>), the only thing the code reads of it.
  A raising call returns \<open>Inl\<close>.
\<close>

datatype error = Error string

fun message :: "error \<Rightarrow> string" where
  "message (Error m) = m"

text \<open>The four arguments of \<^verbatim>\<open>search_profiles\<close> and \<^verbatim>\<open>recursive_search\<close>; empty means unconstrained.\<close>

record query_filter =
  first :: string
  last :: string
  middle :: string
  state :: string

text \<open>
  One row of the output: the dictionary built by \<^verbatim>\<open>extract_profile_data\<close>.  The three columns
  the orchestrator and the finalizer read are fields; the 22 other columns are carried in
  \<open>others\<close>.
\<close>

record profile =
  URL :: string
  NPI :: string
  Address :: string
  others :: "(string \<times> string) list"

text \<open>
  The browser, the remote directory and the clock are a world \<open>'w\<close> that every call takes
  and returns.  The page fetching and the markup parsing are collaborators:
  \<^item> \<open>page_links f\<close>: the liveness check, the navigation to the search page of \<open>f\<close> and the
    \<^verbatim>\<open>href\<close>s of the list \<^verbatim>\<open>results\<close> of \<^verbatim>\<open>search_profiles\<close>, in order, before the duplicate
    removal;
  \<^item> \<open>npi_links f\<close>: the navigation of the last-resort branch of \<^verbatim>\<open>recursive_search\<close> and the
    \<^verbatim>\<open>href\<close>s of its \<^verbatim>\<open>npi_links\<close>;
  \<^item> \<open>page_fields u\<close>: the navigation to the profile page \<open>u\<close> and the fields read from it;
  \<^item> \<open>reinitialize_browser\<close>: \<^verbatim>\<open>_reinitialize_browser\<close>, which raises when no browser starts;
  \<^item> \<open>sleep n\<close>: \<^verbatim>\<open>time.sleep(n)\<close>;
  \<^item> \<open>list_of_set xs\<close>: \<^verbatim>\<open>list(set(xs))\<close>, whose order Python does not fix.
\<close>

record 'w site =
  page_links :: "query_filter \<Rightarrow> 'w \<Rightarrow> (error + string list) \<times> 'w"
  npi_links :: "query_filter \<Rightarrow> 'w \<Rightarrow> (error + string list) \<times> 'w"
  page_fields :: "string \<Rightarrow> 'w \<Rightarrow> (error + profile) \<times> 'w"
  reinitialize_browser :: "'w \<Rightarrow> (error + unit) \<times> 'w"
  sleep :: "nat \<Rightarrow> 'w \<Rightarrow> 'w"
  list_of_set :: "string list \<Rightarrow> string list"

section \<open>The retrying runner\<close>

definition is_session_error :: "string \<Rightarrow> bool" where
  "is_session_error error_msg \<longleftrightarrow>
     contains ''invalid session id'' (lower error_msg) \<or> contains ''disconnected'' (lower error_msg)"

text \<open>
  \<^verbatim>\<open>_retry_operation\<close>: the loop \<^verbatim>\<open>for attempt in range(self.max_retries)\<close> runs over the list
  of the attempt indices.  A loop that ends without returning makes the Python function
  return \<^verbatim>\<open>None\<close>: the result is \<open>Inr None\<close>, and \<open>Inr (Some v)\<close> when the operation returned
  \<open>v\<close>.
\<close>

fun retry_loop ::
  "'w site \<Rightarrow> int \<Rightarrow> ('w \<Rightarrow> (error + 'a) \<times> 'w) \<Rightarrow> nat list \<Rightarrow> 'w \<Rightarrow> (error + 'a option) \<times> 'w"
where
  "retry_loop S max_retries operation [] w = (Inr None, w)"
| "retry_loop S max_retries operation (attempt # rest) w =
     (case operation w of
        (Inr v, w1) \<Rightarrow> (Inr (Some v), w1)
      | (Inl e, w1) \<Rightarrow>
          if is_session_error (message e) \<and> int attempt < max_retries - 1 then
            (case reinitialize_browser S w1 of
               (Inl e2, w2) \<Rightarrow> (Inl e2, w2)
             | (Inr u, w2) \<Rightarrow> retry_loop S max_retries operation rest w2)
          else if int attempt < max_retries - 1 then
            retry_loop S max_retries operation rest (sleep S (2 ^ attempt) w1)
          else (Inl e, w1))"

definition retry_operation ::
  "'w site \<Rightarrow> int \<Rightarrow> ('w \<Rightarrow> (error + 'a) \<times> 'w) \<Rightarrow> 'w \<Rightarrow> (error + 'a option) \<times> 'w"
where
  "retry_operation S max_retries operation w =
     retry_loop S max_retries operation [0 ..< nat max_retries] w"

section \<open>The prober\<close>

definition ALPHABET :: string where
  "ALPHABET = ''ABCDEFGHIJKLMNOPQRSTUVWXYZ''"

definition STATES :: "string list" where
  "STATES =
    [''AL'', ''AK'', ''AZ'', ''AR'', ''CA'', ''CO'', ''CT'', ''DE'', ''FL'', ''GA'',
     ''HI'', ''ID'', ''IL'', ''IN'', ''IA'', ''KS'', ''KY'', ''LA'', ''ME'', ''MD'',
     ''MA'', ''MI'', ''MN'', ''MS'', ''MO'', ''MT'', ''NE'', ''NV'', ''NH'', ''NJ'',
     ''NM'', ''NY'', ''NC'', ''ND'', ''OH'', ''OK'', ''OR'', ''PA'', ''RI'', ''SC'',
     ''SD'', ''TN'', ''TX'', ''UT'', ''VT'', ''VA'', ''WA'', ''WV'', ''WI'', ''WY'']"

text \<open>
  The loop "Remove duplicates based on href" of \<^verbatim>\<open>search_profiles\<close>: a link is kept when its
  \<^verbatim>\<open>href\<close> is non-empty and was not seen before.
\<close>

fun unique_results :: "string set \<Rightarrow> string list \<Rightarrow> string list" where
  "unique_results seen_hrefs [] = []"
| "unique_results seen_hrefs (href # results) =
     (if href \<noteq> [] \<and> href \<notin> seen_hrefs
      then href # unique_results (insert href seen_hrefs) results
      else unique_results seen_hrefs results)"

definition absolute_url :: "string \<Rightarrow> string" where
  "absolute_url href =
     (if \<not> startswith href ''http'' then ''https://npidb.org'' @ href else href)"

text \<open>
  \<^verbatim>\<open>search_profiles\<close> returns \<^verbatim>\<open>None\<close> (here \<open>Inr None\<close>) when more than 30 URLs were found, and
  the list of the URLs otherwise.
\<close>

definition search_profiles ::
  "'w site \<Rightarrow> query_filter \<Rightarrow> 'w \<Rightarrow> (error + string list option) \<times> 'w"
where
  "search_profiles S f w =
     (case page_links S f w of
        (Inl e, w1) \<Rightarrow> (Inl e, w1)
      | (Inr results, w1) \<Rightarrow>
          (let urls = map absolute_url (unique_results {} results)
           in if length urls > 30 then (Inr None, w1) else (Inr (Some urls), w1)))"

section \<open>The recursive partitioner\<close>

text \<open>
  The depth of the narrowing that is left below a filter; it only serves the termination
  proof of \<open>recursive_search\<close>.
\<close>

definition narrowing_left :: "query_filter \<Rightarrow> nat" where
  "narrowing_left f =
     (if last f = [] then 6
      else if middle f = [] then 5
      else if state f = [] then 4
      else (if length (first f) = 1 then 1 else 0) + (if length (last f) = 1 then 1 else 0)
         + (if length (middle f) = 1 then 1 else 0))"

primrec narrowing_left_of_all :: "query_filter list \<Rightarrow> nat" where
  "narrowing_left_of_all [] = 0"
| "narrowing_left_of_all (c # cs) = max (narrowing_left c) (narrowing_left_of_all cs)"

text \<open>
  What \<^verbatim>\<open>_retry_operation(self.search_profiles, ...)\<close> hands to \<^verbatim>\<open>recursive_search\<close> is \<^verbatim>\<open>None\<close>
  both when \<^verbatim>\<open>search_profiles\<close> returned \<^verbatim>\<open>None\<close> and when the retry loop ended without a
  \<^verbatim>\<open>return\<close>.
\<close>

fun returned :: "'a option option \<Rightarrow> 'a option" where
  "returned None = None"
| "returned (Some v) = v"

text \<open>
  \<^verbatim>\<open>recursive_search\<close>.  \<open>search_each cs all_urls\<close> is one of its \<^verbatim>\<open>for\<close> loops, over the filters
  \<open>cs\<close> of the recursive calls that are still to make: each call's list is appended to
  \<open>all_urls\<close>, and an exception of a call leaves the loop and the function.  The last-resort
  branch catches every exception of its own navigation and parsing.
\<close>

function recursive_search ::
    "'w site \<Rightarrow> int \<Rightarrow> query_filter \<Rightarrow> 'w \<Rightarrow> (error + string list) \<times> 'w"
  and search_each ::
    "'w site \<Rightarrow> int \<Rightarrow> query_filter list \<Rightarrow> string list \<Rightarrow> 'w \<Rightarrow> (error + string list) \<times> 'w"
where
  "recursive_search S max_retries f w =
     (case retry_operation S max_retries (search_profiles S f) w of
        (Inl e, w1) \<Rightarrow> (Inl e, w1)
      | (Inr r, w1) \<Rightarrow>
         (case returned r of
            None \<Rightarrow>
          if last f = [] then
            search_each S max_retries
              (map (\<lambda>l. \<lparr>first = first f, last = [l], middle = [], state = []\<rparr>) ALPHABET) [] w1
          else if middle f = [] then
            search_each S max_retries
              (map (\<lambda>m. \<lparr>first = first f, last = last f, middle = [m], state = []\<rparr>) ALPHABET) [] w1
          else if state f = [] then
            search_each S max_retries
              (map (\<lambda>s. \<lparr>first = first f, last = last f, middle = middle f, state = s\<rparr>) STATES) [] w1
          else if length (first f) = 1 then
            search_each S max_retries
              (map (\<lambda>f2. \<lparr>first = first f @ [f2], last = last f, middle = middle f,
                           state = state f\<rparr>) ALPHABET) [] w1
          else if length (last f) = 1 then
            search_each S max_retries
              (map (\<lambda>l2. \<lparr>first = first f, last = last f @ [l2], middle = middle f,
                           state = state f\<rparr>) ALPHABET) [] w1
          else if length (middle f) = 1 then
            search_each S max_retries
              (map (\<lambda>m2. \<lparr>first = first f, last = last f, middle = middle f @ [m2],
                           state = state f\<rparr>) ALPHABET) [] w1
          else
            (case npi_links S f w1 of
               (Inl e, w2) \<Rightarrow> (Inr [], w2)
             | (Inr links, w2) \<Rightarrow>
                 (Inr (map absolute_url (filter (\<lambda>href. href \<noteq> []) (take 30 links))), w2))
          | Some urls \<Rightarrow> if length urls \<le> 30 then (Inr urls, w1) else (Inr [], w1)))"
| "search_each S max_retries [] all_urls w = (Inr all_urls, w)"
| "search_each S max_retries (c # cs) all_urls w =
     (case recursive_search S max_retries c w of
        (Inl e, w1) \<Rightarrow> (Inl e, w1)
      | (Inr urls, w1) \<Rightarrow> search_each S max_retries cs (all_urls @ urls) w1)"
  by pat_completeness auto

section \<open>The orchestrator\<close>

text \<open>
  \<^verbatim>\<open>scrape_search_results\<close>: the dictionary \<^verbatim>\<open>params\<close> is read into the four starting values, a
  missing key giving the empty string, so it is a \<^typ>\<open>query_filter\<close> here.  Its loop over the
  first initials appends each call's list as the loops of \<^verbatim>\<open>recursive_search\<close> do.
\<close>

definition scrape_search_results ::
  "'w site \<Rightarrow> int \<Rightarrow> query_filter \<Rightarrow> 'w \<Rightarrow> (error + string list) \<times> 'w"
where
  "scrape_search_results S max_retries params w =
     (if first params \<noteq> [] then recursive_search S max_retries params w
      else
        (case search_each S max_retries
                (map (\<lambda>f. \<lparr>first = [f], last = last params, middle = middle params,
                            state = state params\<rparr>) ALPHABET) [] w of
           (Inl e, w1) \<Rightarrow> (Inl e, w1)
         | (Inr all_urls, w1) \<Rightarrow> (Inr (list_of_set S all_urls), w1)))"

text \<open>
  \<^verbatim>\<open>extract_profile_data\<close>: the navigation is outside the \<^verbatim>\<open>try\<close> and may raise; the dictionary
  returned always holds the URL that was asked for.
\<close>

definition extract_profile_data ::
  "'w site \<Rightarrow> string \<Rightarrow> 'w \<Rightarrow> (error + profile) \<times> 'w"
where
  "extract_profile_data S url w =
     (case page_fields S url w of
        (Inl e, w1) \<Rightarrow> (Inl e, w1)
      | (Inr data, w1) \<Rightarrow> (Inr (data\<lparr>URL := url\<rparr>), w1))"

text \<open>
  The output file \<^verbatim>\<open>moms.csv\<close> as \<^verbatim>\<open>scrape_all\<close> sees it: \<open>Missing\<close> when it does not exist or
  has no byte, \<open>Unreadable\<close> when \<^verbatim>\<open>pd.read_csv\<close> raises on it, and otherwise its header and
  its rows.  An empty cell is what \<^verbatim>\<open>read_csv\<close> gives as NaN and \<^verbatim>\<open>dropna\<close> removes.  Writing
  to the file is taken not to fail.
\<close>

datatype csv_file = Missing | Unreadable | Table "string list" "profile list"

definition fieldnames :: "string list" where
  "fieldnames =
    [''URL'', ''NPI'', ''Full Name'', ''First Name'', ''Last Name'', ''Middle Name'',
     ''Credentials'', ''Address'', ''City'', ''State'', ''ZIP'', ''Phone'', ''Fax'', ''Website'',
     ''Status'', ''Enumeration Date'', ''Last Updated'', ''Sole Proprietor'', ''Entity Type'',
     ''Specialty'', ''Taxonomy Code'', ''Specialty Code'', ''Provider Type'', ''Gender'',
     ''Hospital Affiliation'']"

fun scraped_urls :: "csv_file \<Rightarrow> string set" where
  "scraped_urls (Table header rows) =
     (if ''URL'' \<in> set header then set (filter (\<lambda>u. u \<noteq> []) (map URL rows)) else {})"
| "scraped_urls Missing = {}"
| "scraped_urls Unreadable = {}"

fun write_header :: "csv_file \<Rightarrow> csv_file" where
  "write_header Missing = Table fieldnames []"
| "write_header csv = csv"

text \<open>Appending one row; the header was written before, so the file is not \<open>Missing\<close> then.\<close>

fun append_row :: "profile \<Rightarrow> csv_file \<Rightarrow> csv_file" where
  "append_row data (Table header rows) = Table header (rows @ [data])"
| "append_row data Unreadable = Unreadable"
| "append_row data Missing = Table [] [data]"

text \<open>
  The state of the loop of \<^verbatim>\<open>scrape_all\<close>.  \<open>all_data\<close> holds \<open>None\<close> where \<^verbatim>\<open>_retry_operation\<close>
  returned \<^verbatim>\<open>None\<close>; \<open>checkpoint\<close> is the content of \<^verbatim>\<open>scraper_checkpoint.txt\<close>: the index,
  the two counts and the URL.
\<close>

record harvest =
  csv :: csv_file
  all_data :: "profile option list"
  successful_count :: nat
  failed_count :: nat
  checkpoint :: "(nat \<times> nat \<times> nat \<times> string) option"

text \<open>
  The loop \<^verbatim>\<open>for idx, url in enumerate(urls_to_scrape, 1)\<close>.  When the runner returns \<^verbatim>\<open>None\<close>,
  \<^verbatim>\<open>None\<close> is appended to \<^verbatim>\<open>all_data\<close> and \<^verbatim>\<open>writer.writerow(None)\<close> raises, which the
  \<^verbatim>\<open>except\<close> of the loop counts as a failure.
\<close>

fun scrape_each ::
  "'w site \<Rightarrow> int \<Rightarrow> nat \<Rightarrow> string list \<Rightarrow> harvest \<Rightarrow> 'w \<Rightarrow> harvest \<times> 'w"
where
  "scrape_each S max_retries idx [] h w = (h, w)"
| "scrape_each S max_retries idx (url # urls) h w =
     (case retry_operation S max_retries (extract_profile_data S url) w of
        (Inl e, w1) \<Rightarrow>
          scrape_each S max_retries (idx + 1) urls (h\<lparr>failed_count := failed_count h + 1\<rparr>) w1
      | (Inr None, w1) \<Rightarrow>
          scrape_each S max_retries (idx + 1) urls
            (h\<lparr>all_data := all_data h @ [None], failed_count := failed_count h + 1\<rparr>) w1
      | (Inr (Some data), w1) \<Rightarrow>
          (let h1 = h\<lparr>all_data := all_data h @ [Some data], csv := append_row data (csv h),
                      successful_count := successful_count h + 1\<rparr>;
               h2 = (if successful_count h1 mod 10 = 0
                     then h1\<lparr>checkpoint :=
                            Some (idx, successful_count h1, failed_count h1, url)\<rparr>
                     else h1)
           in scrape_each S max_retries (idx + 1) urls h2 w1))"

definition urls_to_scrape :: "string list \<Rightarrow> csv_file \<Rightarrow> string list" where
  "urls_to_scrape all_urls csv_file = filter (\<lambda>url. url \<notin> scraped_urls csv_file) all_urls"

text \<open>
  \<^verbatim>\<open>scrape_all\<close> up to the end of its loop, on the output file \<open>csv_file\<close> and, for the advisory
  checkpoint, its earlier content \<open>cp\<close>; the frame it returns is \<open>clean_data\<close> of \<open>all_data\<close>.  An
  exception of the discovery leaves the function before the file is touched.
\<close>

definition scrape_all ::
  "'w site \<Rightarrow> int \<Rightarrow> query_filter \<Rightarrow> csv_file \<Rightarrow> (nat \<times> nat \<times> nat \<times> string) option \<Rightarrow> 'w
    \<Rightarrow> (error + harvest) \<times> 'w"
where
  "scrape_all S max_retries params csv_file cp w =
     (case scrape_search_results S max_retries params w of
        (Inl e, w1) \<Rightarrow> (Inl e, w1)
      | (Inr all_urls, w1) \<Rightarrow>
          (case scrape_each S max_retries 1 (urls_to_scrape all_urls csv_file)
                  \<lparr>csv = write_header csv_file, all_data = [], successful_count = 0,
                   failed_count = 0, checkpoint = cp\<rparr> w1 of
             (h, w2) \<Rightarrow> (Inr h, w2)))"

section \<open>The finalizer\<close>

text \<open>\<^verbatim>\<open>drop_duplicates(subset=['NPI'])\<close> keeps the first row of each NPI.\<close>

fun drop_duplicates :: "string set \<Rightarrow> profile list \<Rightarrow> profile list" where
  "drop_duplicates seen [] = []"
| "drop_duplicates seen (r # rs) =
     (if NPI r \<in> seen then drop_duplicates seen rs
      else r # drop_duplicates (insert (NPI r) seen) rs)"

text \<open>
  The characters below 256 that the regular expression classes \<^verbatim>\<open>\w\<close> and \<^verbatim>\<open>\d\<close> of Python
  hold for a \<^verbatim>\<open>str\<close> pattern: \<^verbatim>\<open>\w\<close> is the underscore and every alphanumeric character, which
  besides the ASCII letters and digits are the 60 Latin-1 letters of the two cases and 11
  more characters
  (the ordinal indicators, the superscript digits, the micro sign, the fractions, sharp s
  and y with diaeresis); \<^verbatim>\<open>\d\<close> is the ten ASCII digits.
\<close>

definition is_word_char :: "char \<Rightarrow> bool" where
  "is_word_char c \<longleftrightarrow>
     c \<in> set (''abcdefghijklmnopqrstuvwxyzABCDEFGHIJKLMNOPQRSTUVWXYZ0123456789_'' @
           [CHR 0xC0, CHR 0xC1, CHR 0xC2, CHR 0xC3, CHR 0xC4, CHR 0xC5, CHR 0xC6, CHR 0xC7,
           CHR 0xC8, CHR 0xC9, CHR 0xCA, CHR 0xCB, CHR 0xCC, CHR 0xCD, CHR 0xCE, CHR 0xCF,
           CHR 0xD0, CHR 0xD1, CHR 0xD2, CHR 0xD3, CHR 0xD4, CHR 0xD5, CHR 0xD6, CHR 0xD8,
           CHR 0xD9, CHR 0xDA, CHR 0xDB, CHR 0xDC, CHR 0xDD, CHR 0xDE] @
           [CHR 0xE0, CHR 0xE1, CHR 0xE2, CHR 0xE3, CHR 0xE4, CHR 0xE5, CHR 0xE6, CHR 0xE7,
           CHR 0xE8, CHR 0xE9, CHR 0xEA, CHR 0xEB, CHR 0xEC, CHR 0xED, CHR 0xEE, CHR 0xEF,
           CHR 0xF0, CHR 0xF1, CHR 0xF2, CHR 0xF3, CHR 0xF4, CHR 0xF5, CHR 0xF6, CHR 0xF8,
           CHR 0xF9, CHR 0xFA, CHR 0xFB, CHR 0xFC, CHR 0xFD, CHR 0xFE] @
           [CHR 0xAA, CHR 0xB2, CHR 0xB3, CHR 0xB5, CHR 0xB9, CHR 0xBA, CHR 0xBC, CHR 0xBD,
           CHR 0xBE, CHR 0xDF, CHR 0xFF])"

definition is_digit :: "char \<Rightarrow> bool" where
  "is_digit c \<longleftrightarrow> c \<in> set ''0123456789''"

text \<open>
  \<^verbatim>\<open>str.replace(r'\bP\b', repl, case=False, regex=True)\<close> for a pattern \<open>P\<close> of ASCII letters, given
  in lower case as \<open>pat\<close>: the text is scanned from the left; \<open>prev\<close> tells whether the
  character before the position is a word character.  A match needs a word boundary on
  both sides, is replaced by \<open>repl\<close>, and the scan goes on behind it.
\<close>

fun sub_word :: "string \<Rightarrow> string \<Rightarrow> bool \<Rightarrow> string \<Rightarrow> string" where
  "sub_word pat repl prev [] = []"
| "sub_word pat repl prev (c # cs) =
     (if \<not> prev \<and> startswith (lower (c # cs)) pat
         \<and> (case drop (length pat) (c # cs) of [] \<Rightarrow> True | d # ds \<Rightarrow> \<not> is_word_char d)
      then repl @ sub_word pat repl True (drop (length pat - 1) cs)
      else c # sub_word pat repl (is_word_char c) cs)"

definition standardize_address :: "string \<Rightarrow> string" where
  "standardize_address a =
     sub_word ''blvd'' ''Boulevard'' False
       (sub_word ''ave'' ''Avenue'' False (sub_word ''st'' ''Street'' False a))"

text \<open>
  \<^verbatim>\<open>str.match(r'^\d{10}$')\<close>: ten digits from the start, and then the end of the string; the
  \<^verbatim>\<open>$\<close> of Python also matches before a newline that ends the string.
\<close>

definition npi_match :: "string \<Rightarrow> bool" where
  "npi_match s \<longleftrightarrow>
     length (take 10 s) = 10 \<and> list_all is_digit (take 10 s)
     \<and> (drop 10 s = [] \<or> drop 10 s = [CHR 0x0A])"

definition clean_data :: "profile list \<Rightarrow> profile list" where
  "clean_data data =
     (if data = [] then []
      else filter (\<lambda>r. npi_match (NPI r))
             (map (\<lambda>r. r\<lparr>Address := standardize_address (Address r)\<rparr>)
                (drop_duplicates {} data)))"

section \<open>Instrumented collaborators\<close>

text \<open>
  Collaborators that record every call in the world, for running the code on concrete
  directories.  \<open>logging_site results direct\<close> answers the search for \<open>f\<close> with the links
  \<open>results f\<close> and the last-resort navigation with \<open>direct f\<close>; every profile page gives the
  same fields.
\<close>

datatype call =
  Probed query_filter | Direct query_filter | Fetched string | Called | Recovered | Slept nat

definition logging_site ::
  "(query_filter \<Rightarrow> string list) \<Rightarrow> (query_filter \<Rightarrow> error + string list) \<Rightarrow> call list site"
where
  "logging_site results direct =
     \<lparr>page_links = (\<lambda>f w. (Inr (results f), w @ [Probed f])),
      npi_links = (\<lambda>f w. (direct f, w @ [Direct f])),
      page_fields = (\<lambda>u w. (Inr \<lparr>URL = [], NPI = ''1234567890'', Address = ''1 MAIN ST'',
                                  others = []\<rparr>, w @ [Fetched u])),
      reinitialize_browser = (\<lambda>w. (Inr (), w @ [Recovered])),
      sleep = (\<lambda>n w. w @ [Slept n]),
      list_of_set = remdups\<rparr>"

text \<open>Thirty-one different links: one more than a result page may show.\<close>

definition many_links :: "string list" where
  "many_links = map (\<lambda>c. [CHR ''/'', c]) ''ABCDEFGHIJKLMNOPQRSTUVWXYZabcde''"

text \<open>
  A directory with more than 30 matches while the last initial is open, and one profile
  that the last initials A and B both find.
\<close>

definition overlapping :: "query_filter \<Rightarrow> string list" where
  "overlapping f =
     (if last f = [] then many_links
      else if last f = ''A'' \<or> last f = ''B'' then [''/npi/1'']
      else [])"

text \<open>
  A directory that stays over the limit at two filters with every dimension set, and has
  one match for the first name AB.
\<close>

definition crowded :: "query_filter \<Rightarrow> string list" where
  "crowded f =
     (if last f = ''B'' \<and> middle f = ''C'' \<and> state f = ''CA'' \<and> first f = ''A'' then many_links
      else if last f = ''BB'' \<and> middle f = ''CC'' \<and> state f = ''CA'' \<and> first f = ''AA''
        then many_links
      else if first f = ''AB'' then [''/npi/2'']
      else [])"

text \<open>
  An operation that follows a script: each call takes the next outcome of the script and
  is recorded, as the recoveries and the waits of the runner are.
\<close>

definition run_script ::
  "(error + 'a) list \<times> call list \<Rightarrow> (error + 'a) \<times> ((error + 'a) list \<times> call list)"
where
  "run_script w =
     (case fst w of
        [] \<Rightarrow> (Inl (Error ''the script is over''), ([], snd w @ [Called]))
      | r # rs \<Rightarrow> (r, (rs, snd w @ [Called])))"

definition scripted_site :: "((error + 'a) list \<times> call list) site" where
  "scripted_site =
     \<lparr>page_links = (\<lambda>f w. (Inr [], w)),
      npi_links = (\<lambda>f w. (Inr [], w)),
      page_fields = (\<lambda>u w. (Inl (Error ''no page''), w)),
      reinitialize_browser = (\<lambda>w. (Inr (), (fst w, snd w @ [Recovered]))),
      sleep = (\<lambda>n w. (fst w, snd w @ [Slept n])),
      list_of_set = remdups\<rparr>"

text \<open>
  What the runner does between two attempts, after the failures \<open>es\<close> of the attempts
  \<open>i, i + 1, \<dots>\<close>: a recovery after a session loss, a wait of \<open>2 ^ i\<close> after any other failure.
\<close>

fun between_attempts :: "nat \<Rightarrow> error list \<Rightarrow> call list" where
  "between_attempts i [] = []"
| "between_attempts i (e # es) =
     Called # (if is_session_error (message e) then Recovered else Slept (2 ^ i))
       # between_attempts (Suc i) es"

section \<open>Notions of the specification\<close>

text \<open>
  The searches of the filters \<open>cs\<close>, one after the other, each in the world that the one
  before left: the lists they return, or the first exception.
\<close>

fun child_results ::
  "'w site \<Rightarrow> int \<Rightarrow> query_filter list \<Rightarrow> 'w \<Rightarrow> (error + string list list) \<times> 'w"
where
  "child_results S max_retries [] w = (Inr [], w)"
| "child_results S max_retries (c # cs) w =
     (case recursive_search S max_retries c w of
        (Inl e, w1) \<Rightarrow> (Inl e, w1)
      | (Inr urls, w1) \<Rightarrow>
          (case child_results S max_retries cs w1 of
             (Inl e, w2) \<Rightarrow> (Inl e, w2)
           | (Inr rs, w2) \<Rightarrow> (Inr (urls # rs), w2)))"

text \<open>The lists of the children put one after the other, every duplicate kept.\<close>

fun appended :: "(error + string list list) \<times> 'w \<Rightarrow> (error + string list) \<times> 'w" where
  "appended (Inl e, w) = (Inl e, w)"
| "appended (Inr rs, w) = (Inr (concat rs), w)"

text \<open>The rows that the output file holds.\<close>

fun rows_of :: "csv_file \<Rightarrow> profile list" where
  "rows_of (Table header rows) = rows"
| "rows_of Missing = []"
| "rows_of Unreadable = []"

text \<open>
  An address cut into its words, each with the separator that follows it: a word is a
  non-empty run of word characters, a separator a run of other characters, which is empty
  only behind the last word.  \<open>expand_word\<close> is the expansion of one word.
\<close>

fun well_split :: "(string \<times> string) list \<Rightarrow> bool" where
  "well_split [] = True"
| "well_split ((word, sep) # parts) =
     (word \<noteq> [] \<and> list_all is_word_char word \<and> list_all (\<lambda>c. \<not> is_word_char c) sep
      \<and> (sep = [] \<longrightarrow> parts = []) \<and> well_split parts)"

definition joined :: "(string \<times> string) list \<Rightarrow> string" where
  "joined parts = concat (map (\<lambda>(word, sep). word @ sep) parts)"

definition expand_word :: "string \<Rightarrow> string" where
  "expand_word word =
     (if lower word = ''st'' then ''Street''
      else if lower word = ''ave'' then ''Avenue''
      else if lower word = ''blvd'' then ''Boulevard''
      else word)"

section \<open>Termination of the partitioner\<close>

lemma narrowing_left_of_all_le:
  "(\<And>x. x \<in> set xs \<Longrightarrow> narrowing_left (g x) \<le> n) \<Longrightarrow> narrowing_left_of_all (map g xs) \<le> n"
  by (induction xs) auto

lemma STATES_nonempty: "s \<in> set STATES \<Longrightarrow> s \<noteq> []"
  by (auto simp: STATES_def)

termination recursive_search
proof (relation "inv_image (less_than <*lex*> less_than)
    (\<lambda>x. case x of
       Inl (S, mr, f, w) \<Rightarrow> (2 * narrowing_left f + 1, 0)
     | Inr (S, mr, cs, acc, w) \<Rightarrow> (2 * narrowing_left_of_all cs + 2, length cs))", goal_cases)
  case 1
  show ?case by auto
next
  case (2 S mr f w x w1 r)
  have "narrowing_left_of_all
      (map (\<lambda>l. \<lparr>first = first f, last = [l], middle = [], state = []\<rparr>) ALPHABET) \<le> 5"
    by (rule narrowing_left_of_all_le) (simp add: narrowing_left_def)
  with 2 show ?case by (simp add: narrowing_left_def)
next
  case (3 S mr f w x w1 r)
  have "narrowing_left_of_all
      (map (\<lambda>m. \<lparr>first = first f, last = last f, middle = [m], state = []\<rparr>) ALPHABET) \<le> 4"
    using 3 by (intro narrowing_left_of_all_le) (simp add: narrowing_left_def)
  with 3 show ?case by (simp add: narrowing_left_def)
next
  case (4 S mr f w x w1 r)
  have "narrowing_left_of_all
      (map (\<lambda>s. \<lparr>first = first f, last = last f, middle = middle f, state = s\<rparr>) STATES) \<le> 3"
    using 4
    by (intro narrowing_left_of_all_le) (auto simp add: narrowing_left_def dest: STATES_nonempty)
  with 4 show ?case by (simp add: narrowing_left_def)
next
  case (5 S mr f w x w1 r)
  have "narrowing_left_of_all
      (map (\<lambda>f2. \<lparr>first = first f @ [f2], last = last f, middle = middle f,
                   state = state f\<rparr>) ALPHABET) \<le> narrowing_left f - 1"
    using 5 by (intro narrowing_left_of_all_le) (simp add: narrowing_left_def)
  moreover have "0 < narrowing_left f"
    using 5 by (simp add: narrowing_left_def)
  ultimately show ?case by simp
next
  case (6 S mr f w x w1 r)
  have "narrowing_left_of_all
      (map (\<lambda>l2. \<lparr>first = first f, last = last f @ [l2], middle = middle f,
                   state = state f\<rparr>) ALPHABET) \<le> narrowing_left f - 1"
    using 6 by (intro narrowing_left_of_all_le) (simp add: narrowing_left_def)
  moreover have "0 < narrowing_left f"
    using 6 by (simp add: narrowing_left_def)
  ultimately show ?case by simp
next
  case (7 S mr f w x w1 r)
  have "narrowing_left_of_all
      (map (\<lambda>m2. \<lparr>first = first f, last = last f, middle = middle f @ [m2],
                   state = state f\<rparr>) ALPHABET) \<le> narrowing_left f - 1"
    using 7 by (intro narrowing_left_of_all_le) (simp add: narrowing_left_def)
  moreover have "0 < narrowing_left f"
    using 7 by (simp add: narrowing_left_def)
  ultimately show ?case by simp
next
  case 8
  show ?case by (simp add: max_def)
next
  case 9
  show ?case by (simp add: max_def)
qed

declare recursive_search.simps [simp del]

section \<open>Facts about the runner\<close>

lemma retry_loop_returned:
  "retry_loop S mr operation attempts w = (Inr (Some v), w1) \<Longrightarrow> \<exists>w0. operation w0 = (Inr v, w1)"
proof (induction attempts arbitrary: w)
  case Nil
  then show ?case by simp
next
  case (Cons a attempts)
  then show ?case
    by (auto split: prod.splits sum.splits if_splits)
qed

lemma retry_first_attempt:
  assumes "0 < mr" and "operation w = (Inr v, w1)"
  shows "retry_operation S mr operation w = (Inr (Some v), w1)"
proof -
  from assms(1) have "[0 ..< nat mr] = 0 # [1 ..< nat mr]"
    by (simp add: upt_conv_Cons)
  with assms(2) show ?thesis
    by (simp add: retry_operation_def)
qed

section \<open>Facts about the prober\<close>

lemma search_profiles_some_le:
  "search_profiles S f w0 = (Inr (Some urls), w1) \<Longrightarrow> length urls \<le> 30"
  by (auto simp: search_profiles_def Let_def split: prod.splits sum.splits if_splits)

lemma recursive_search_over_limit:
  assumes "retry_operation S mr (search_profiles S f) w = (Inr r, w1)" and "returned r = None"
  shows "recursive_search S mr f w =
    (if last f = [] then
       search_each S mr
         (map (\<lambda>l. \<lparr>first = first f, last = [l], middle = [], state = []\<rparr>) ALPHABET) [] w1
     else if middle f = [] then
       search_each S mr
         (map (\<lambda>m. \<lparr>first = first f, last = last f, middle = [m], state = []\<rparr>) ALPHABET) [] w1
     else if state f = [] then
       search_each S mr
         (map (\<lambda>s. \<lparr>first = first f, last = last f, middle = middle f, state = s\<rparr>) STATES) [] w1
     else if length (first f) = 1 then
       search_each S mr
         (map (\<lambda>f2. \<lparr>first = first f @ [f2], last = last f, middle = middle f,
                      state = state f\<rparr>) ALPHABET) [] w1
     else if length (last f) = 1 then
       search_each S mr
         (map (\<lambda>l2. \<lparr>first = first f, last = last f @ [l2], middle = middle f,
                      state = state f\<rparr>) ALPHABET) [] w1
     else if length (middle f) = 1 then
       search_each S mr
         (map (\<lambda>m2. \<lparr>first = first f, last = last f, middle = middle f @ [m2],
                      state = state f\<rparr>) ALPHABET) [] w1
     else
       (case npi_links S f w1 of
          (Inl e, w2) \<Rightarrow> (Inr [], w2)
        | (Inr links, w2) \<Rightarrow>
            (Inr (map absolute_url (filter (\<lambda>href. href \<noteq> []) (take 30 links))), w2)))"
  by (subst recursive_search.simps) (simp only: assms prod.case sum.case option.case)

lemma recursive_search_returned:
  assumes r: "retry_operation S mr (search_profiles S f) w = (Inr (Some (Some urls)), w1)"
  shows "recursive_search S mr f w = (Inr urls, w1)" and "length urls \<le> 30"
proof -
  from r obtain w0 where "search_profiles S f w0 = (Inr (Some urls), w1)"
    unfolding retry_operation_def by (blast dest: retry_loop_returned)
  then show "length urls \<le> 30" by (rule search_profiles_some_le)
  with r show "recursive_search S mr f w = (Inr urls, w1)"
    by (simp add: recursive_search.simps)
qed

lemma recursive_search_raised:
  "retry_operation S mr (search_profiles S f) w = (Inl e, w1) \<Longrightarrow>
   recursive_search S mr f w = (Inl e, w1)"
  by (simp add: recursive_search.simps)

section \<open>Running on a logging site\<close>

lemma logging_site_simps:
  "page_links (logging_site results direct) f w = (Inr (results f), w @ [Probed f])"
  "npi_links (logging_site results direct) f w = (direct f, w @ [Direct f])"
  "reinitialize_browser (logging_site results direct) w = (Inr (), w @ [Recovered])"
  "sleep (logging_site results direct) n w = w @ [Slept n]"
  "list_of_set (logging_site results direct) = remdups"
  by (simp_all add: logging_site_def)

lemma many_links_urls: "length (map absolute_url (unique_results {} many_links)) = 31"
  by (simp add: many_links_def)

lemma logging_site_over_limit:
  assumes "0 < mr" and "results f = many_links"
  shows "retry_operation (logging_site results direct) mr
           (search_profiles (logging_site results direct) f) w = (Inr (Some None), w @ [Probed f])"
proof -
  have "search_profiles (logging_site results direct) f w = (Inr None, w @ [Probed f])"
    using many_links_urls by (simp add: search_profiles_def logging_site_simps assms(2))
  with assms(1) show ?thesis by (rule retry_first_attempt)
qed

lemma logging_site_within_limit:
  assumes "0 < mr" and "length (unique_results {} (results f)) \<le> 30"
  shows "recursive_search (logging_site results direct) mr f w =
           (Inr (map absolute_url (unique_results {} (results f))), w @ [Probed f])"
proof -
  let ?urls = "map absolute_url (unique_results {} (results f))"
  have "search_profiles (logging_site results direct) f w = (Inr (Some ?urls), w @ [Probed f])"
    using assms(2) by (simp add: search_profiles_def logging_site_simps)
  with assms(1) have "retry_operation (logging_site results direct) mr
      (search_profiles (logging_site results direct) f) w = (Inr (Some (Some ?urls)), w @ [Probed f])"
    by (rule retry_first_attempt)
  then show ?thesis by (rule recursive_search_returned)
qed

section \<open>Results within the limit\<close>

text \<open>
  C3: when the probe of a filter returns a list, which holds 30 URLs at most and may be
  empty, \<open>recursive_search\<close> returns exactly that list, and the world is the one the probe
  left: no further search was made.  This holds for whatever the runner returns from
  \<^verbatim>\<open>search_profiles\<close>, and in particular when the first attempt finds 30 links or fewer.
\<close>

theorem recursive_search_within_limit:
  "(retry_operation S mr (search_profiles S f) w = (Inr (Some (Some urls)), w1)
      \<longrightarrow> recursive_search S mr f w = (Inr urls, w1) \<and> length urls \<le> 30)
   \<and> (0 < mr \<and> page_links S f w = (Inr results, w1)
        \<and> length (map absolute_url (unique_results {} results)) \<le> 30
      \<longrightarrow> recursive_search S mr f w = (Inr (map absolute_url (unique_results {} results)), w1))"
proof (intro conjI impI)
  assume r: "retry_operation S mr (search_profiles S f) w = (Inr (Some (Some urls)), w1)"
  then show "recursive_search S mr f w = (Inr urls, w1)" and "length urls \<le> 30"
    by (rule recursive_search_returned)+
next
  assume a: "0 < mr \<and> page_links S f w = (Inr results, w1)
        \<and> length (map absolute_url (unique_results {} results)) \<le> 30"
  let ?urls = "map absolute_url (unique_results {} results)"
  from a have "search_profiles S f w = (Inr (Some ?urls), w1)"
    by (simp add: search_profiles_def)
  with a have "retry_operation S mr (search_profiles S f) w = (Inr (Some (Some ?urls)), w1)"
    by (intro retry_first_attempt) simp_all
  then show "recursive_search S mr f w = (Inr ?urls, w1)"
    by (rule recursive_search_returned)
qed

theorem recursive_search_within_limit_witness:
  "recursive_search (logging_site overlapping (\<lambda>f. Inr [])) 3
     \<lparr>first = ''A'', last = ''B'', middle = [], state = []\<rparr> []
     = (Inr [''https://npidb.org/npi/1''],
        [Probed \<lparr>first = ''A'', last = ''B'', middle = [], state = []\<rparr>])
   \<and> recursive_search (logging_site overlapping (\<lambda>f. Inr [])) 3
     \<lparr>first = ''A'', last = ''C'', middle = [], state = []\<rparr> []
     = (Inr [], [Probed \<lparr>first = ''A'', last = ''C'', middle = [], state = []\<rparr>])"
proof -
  let ?S = "logging_site overlapping (\<lambda>f. Inr [])"
  let ?f = "\<lparr>first = ''A'', last = ''B'', middle = [], state = []\<rparr>"
  let ?g = "\<lparr>first = ''A'', last = ''C'', middle = [], state = []\<rparr>"
  have "page_links ?S ?f [] = (Inr [''/npi/1''], [Probed ?f])"
    by (simp add: logging_site_simps overlapping_def)
  moreover have "page_links ?S ?g [] = (Inr [], [Probed ?g])"
    by (simp add: logging_site_simps overlapping_def)
  moreover have "map absolute_url (unique_results {} [''/npi/1'']) = [''https://npidb.org/npi/1'']"
    by (simp add: absolute_url_def)
  ultimately show ?thesis
    using recursive_search_within_limit [where S = ?S and mr = 3 and f = ?f and w = "[]"
        and results = "[''/npi/1'']" and ?w1.0 = "[Probed ?f]"]
      recursive_search_within_limit [where S = ?S and mr = 3 and f = ?g and w = "[]"
        and results = "[]" and ?w1.0 = "[Probed ?g]"]
    by simp
qed

section \<open>The policy of the runner\<close>

lemma run_script_Cons: "run_script (r # rs, lg) = (r, (rs, lg @ [Called]))"
  by (simp add: run_script_def)

lemma scripted_site_recovery:
  "reinitialize_browser scripted_site (rs, lg) = (Inr (), (rs, lg @ [Recovered]))"
  by (simp add: scripted_site_def)

lemma scripted_site_sleep: "sleep scripted_site n (rs, lg) = (rs, lg @ [Slept n])"
  by (simp add: scripted_site_def)

lemma retry_loop_script_success:
  "i + length es < nat mr \<Longrightarrow>
   retry_loop scripted_site mr run_script [i ..< nat mr] (map Inl es @ Inr v # rest, lg)
     = (Inr (Some v), (rest, lg @ between_attempts i es @ [Called]))"
proof (induction es arbitrary: i lg)
  case Nil
  then have "[i ..< nat mr] = i # [Suc i ..< nat mr]" by (simp add: upt_conv_Cons)
  then show ?case by (simp add: run_script_Cons)
next
  case (Cons e es)
  then have u: "[i ..< nat mr] = i # [Suc i ..< nat mr]" by (simp add: upt_conv_Cons)
  from Cons.prems have lt: "int i < mr - 1" by (simp; linarith)
  from Cons.prems have "Suc i + length es < nat mr" by simp
  note IH = Cons.IH [OF this]
  show ?case
    by (simp add: u run_script_Cons lt scripted_site_recovery scripted_site_sleep IH)
qed

lemma retry_loop_script_exhausted:
  "i + length es = nat mr - 1 \<Longrightarrow> 0 < mr \<Longrightarrow>
   retry_loop scripted_site mr run_script [i ..< nat mr] (map Inl es @ Inl e # rest, lg)
     = ((Inl e :: error + 'a option),
        (rest :: (error + 'a) list, lg @ between_attempts i es @ [Called]))"
proof (induction es arbitrary: i lg)
  case Nil
  then have u: "[i ..< nat mr] = i # [Suc i ..< nat mr]" by (simp add: upt_conv_Cons)
  from Nil have "\<not> int i < mr - 1" by (simp; linarith)
  then show ?case by (simp add: u run_script_Cons)
next
  case (Cons e' es)
  then have u: "[i ..< nat mr] = i # [Suc i ..< nat mr]" by (simp add: upt_conv_Cons)
  from Cons.prems have lt: "int i < mr - 1" by (simp; linarith)
  from Cons.prems have "Suc i + length es = nat mr - 1" by simp
  note IH = Cons.IH [OF this Cons.prems(2)]
  show ?case
    by (simp add: u run_script_Cons lt scripted_site_recovery scripted_site_sleep IH)
qed

text \<open>
  C5: run on a scripted operation whose first attempts fail with the errors \<open>es\<close>.  When
  attempts remain (\<open>length es < max_retries\<close>) and the next attempt succeeds with \<open>v\<close>, the
  runner returns \<open>v\<close>; when the failure \<open>e\<close> comes on the last attempt, \<open>e\<close> is raised again to
  the caller.  In both cases the record of the run is \<open>between_attempts 0 es\<close> and the final
  call: after failed attempt \<open>i\<close> and before the next call, one recovery if the failure was
  a session loss, and one wait of \<open>2 ^ i\<close> otherwise.
\<close>

theorem retry_operation_policy:
  "(length es < nat mr \<longrightarrow>
      retry_operation scripted_site mr run_script (map Inl es @ Inr v # rest, lg)
        = (Inr (Some v), (rest, lg @ between_attempts 0 es @ [Called])))
   \<and> (0 < mr \<and> length es = nat mr - 1 \<longrightarrow>
      retry_operation scripted_site mr run_script (map Inl es @ Inl e # rest, lg)
        = (Inl e, (rest, lg @ between_attempts 0 es @ [Called])))"
  using retry_loop_script_success [of 0 es mr v rest lg]
    retry_loop_script_exhausted [of 0 es mr e rest lg]
  by (simp add: retry_operation_def)

text \<open>
  With three attempts: two session losses and then a success give exactly two recoveries
  and the result; three other failures give the waits 1 and 2 and the third error.
\<close>

theorem retry_operation_policy_witness:
  "retry_operation scripted_site 3 run_script
     ([Inl (Error ''invalid session id''), Inl (Error ''Disconnected''), Inr (7::nat)], [])
     = (Inr (Some 7), ([], [Called, Recovered, Called, Recovered, Called]))
   \<and> retry_operation scripted_site 3 run_script
     ([Inl (Error ''timeout''), Inl (Error ''stale''), Inl (Error ''no page''), Inr (7::nat)], [])
     = (Inl (Error ''no page''), ([Inr 7], [Called, Slept 1, Called, Slept 2, Called]))"
proof -
  have s: "is_session_error ''invalid session id''" "is_session_error ''Disconnected''"
    by (simp_all add: is_session_error_def lower_def lower_char_def)
  have t: "\<not> is_session_error ''timeout''" "\<not> is_session_error ''stale''"
    by (simp_all add: is_session_error_def lower_def lower_char_def)
  have "between_attempts 0 [Error ''invalid session id'', Error ''Disconnected'']
      = [Called, Recovered, Called, Recovered]"
    by (simp add: s)
  moreover have "between_attempts 0 [Error ''timeout'', Error ''stale'']
      = [Called, Slept 1, Called, Slept 2]"
    by (simp add: t)
  ultimately show ?thesis
    using retry_operation_policy [where es = "[Error ''invalid session id'', Error ''Disconnected'']"
        and mr = 3 and v = "7::nat" and rest = "[]" and lg = "[]"]
      retry_operation_policy [where es = "[Error ''timeout'', Error ''stale'']" and mr = 3
        and e = "Error ''no page''" and rest = "[Inr (7::nat)]" and lg = "[]"]
    by simp
qed

section \<open>The last resort\<close>

text \<open>
  C10: in the branch taken when the filter is over the limit, its last name, middle name
  and state are set and none of the three names is one character long (so also when each
  has two or more), an exception of the final navigation is caught: \<open>recursive_search\<close>
  returns the empty list gathered so far, and whatever that navigation does the branch
  returns a list and never raises.
\<close>

theorem last_resort_never_raises:
  assumes "retry_operation S mr (search_profiles S f) w = (Inr r, w1)" and "returned r = None"
    and "last f \<noteq> []" and "middle f \<noteq> []" and "state f \<noteq> []"
    and "length (first f) \<noteq> 1" and "length (last f) \<noteq> 1" and "length (middle f) \<noteq> 1"
  shows "(npi_links S f w1 = (Inl e, w2) \<longrightarrow> recursive_search S mr f w = (Inr [], w2))
    \<and> (\<exists>urls. recursive_search S mr f w = (Inr urls, snd (npi_links S f w1)))"
proof -
  have eq: "recursive_search S mr f w =
      (case npi_links S f w1 of
         (Inl e, w2) \<Rightarrow> (Inr [], w2)
       | (Inr links, w2) \<Rightarrow>
           (Inr (map absolute_url (filter (\<lambda>href. href \<noteq> []) (take 30 links))), w2))"
    using assms(3-8) by (simp add: recursive_search_over_limit [OF assms(1,2)])
  show ?thesis
  proof (intro conjI impI)
    assume "npi_links S f w1 = (Inl e, w2)"
    with eq show "recursive_search S mr f w = (Inr [], w2)" by simp
  next
    show "\<exists>urls. recursive_search S mr f w = (Inr urls, snd (npi_links S f w1))"
      unfolding eq by (cases "npi_links S f w1") (auto split: sum.splits)
  qed
qed

theorem last_resort_never_raises_witness:
  "recursive_search (logging_site crowded (\<lambda>f. Inl (Error ''timeout''))) 3
     \<lparr>first = ''AA'', last = ''BB'', middle = ''CC'', state = ''CA''\<rparr> []
   = (Inr [], [Probed \<lparr>first = ''AA'', last = ''BB'', middle = ''CC'', state = ''CA''\<rparr>,
               Direct \<lparr>first = ''AA'', last = ''BB'', middle = ''CC'', state = ''CA''\<rparr>])"
proof -
  let ?S = "logging_site crowded (\<lambda>f. Inl (Error ''timeout''))"
  let ?f = "\<lparr>first = ''AA'', last = ''BB'', middle = ''CC'', state = ''CA''\<rparr>"
  have "crowded ?f = many_links" by (simp add: crowded_def)
  then have p: "retry_operation ?S 3 (search_profiles ?S ?f) [] = (Inr (Some None), [] @ [Probed ?f])"
    by (intro logging_site_over_limit) simp_all
  have n: "npi_links ?S ?f [Probed ?f] = (Inl (Error ''timeout''), [Probed ?f, Direct ?f])"
    by (simp add: logging_site_simps)
  show ?thesis
    using last_resort_never_raises [where S = ?S and mr = 3 and f = ?f and w = "[]"
        and r = "Some None" and ?w1.0 = "[Probed ?f]" and e = "Error ''timeout''"
        and ?w2.0 = "[Probed ?f, Direct ?f]"] p n
    by simp
qed

text \<open>
  C6: over the limit with the last name, the middle name and the state set, the search
  goes on over the alphabet with a second character added to the first name if it has one
  character, else to the last name if it has one, else to the middle name if it has one;
  when none has one character the branch makes one direct navigation and returns the URLs
  of its first 30 links at most.
\<close>

theorem narrowing_exhausted:
  assumes "retry_operation S mr (search_profiles S f) w = (Inr r, w1)" and "returned r = None"
    and "last f \<noteq> []" and "middle f \<noteq> []" and "state f \<noteq> []"
  shows
    "(length (first f) = 1 \<longrightarrow>
        recursive_search S mr f w
          = search_each S mr (map (\<lambda>c. f\<lparr>first := first f @ [c]\<rparr>) ALPHABET) [] w1)
     \<and> (length (first f) \<noteq> 1 \<and> length (last f) = 1 \<longrightarrow>
        recursive_search S mr f w
          = search_each S mr (map (\<lambda>c. f\<lparr>last := last f @ [c]\<rparr>) ALPHABET) [] w1)
     \<and> (length (first f) \<noteq> 1 \<and> length (last f) \<noteq> 1 \<and> length (middle f) = 1 \<longrightarrow>
        recursive_search S mr f w
          = search_each S mr (map (\<lambda>c. f\<lparr>middle := middle f @ [c]\<rparr>) ALPHABET) [] w1)
     \<and> (length (first f) \<noteq> 1 \<and> length (last f) \<noteq> 1 \<and> length (middle f) \<noteq> 1
          \<and> npi_links S f w1 = (Inr links, w2) \<longrightarrow>
        recursive_search S mr f w
          = (Inr (map absolute_url (filter (\<lambda>href. href \<noteq> []) (take 30 links))), w2)
        \<and> length (map absolute_url (filter (\<lambda>href. href \<noteq> []) (take 30 links))) \<le> 30)"
proof -
  note eq = recursive_search_over_limit [OF assms(1,2)]
  have f: "(\<lambda>c. f\<lparr>first := first f @ [c]\<rparr>)
      = (\<lambda>f2. \<lparr>first = first f @ [f2], last = last f, middle = middle f, state = state f\<rparr>)"
    by (cases f) simp
  have l: "(\<lambda>c. f\<lparr>last := last f @ [c]\<rparr>)
      = (\<lambda>l2. \<lparr>first = first f, last = last f @ [l2], middle = middle f, state = state f\<rparr>)"
    by (cases f) simp
  have m: "(\<lambda>c. f\<lparr>middle := middle f @ [c]\<rparr>)
      = (\<lambda>m2. \<lparr>first = first f, last = last f, middle = middle f @ [m2], state = state f\<rparr>)"
    by (cases f) simp
  have le: "length (map absolute_url (filter (\<lambda>href. href \<noteq> []) (take 30 links))) \<le> 30"
    using length_filter_le [of "\<lambda>href. href \<noteq> []" "take 30 links"] by simp
  show ?thesis
    using assms(3-5) le by (simp add: eq f l m)
qed


lemma search_each_logging_within:
  assumes "0 < mr" and "\<And>c. c \<in> set cs \<Longrightarrow> length (unique_results {} (results c)) \<le> 30"
  shows "search_each (logging_site results direct) mr cs acc w
    = (Inr (acc @ concat (map (\<lambda>c. map absolute_url (unique_results {} (results c))) cs)),
       w @ map Probed cs)"
  using assms(2)
proof (induction cs arbitrary: acc w)
  case Nil
  then show ?case by simp
next
  case (Cons c cs)
  then show ?case
    by (simp add: logging_site_within_limit [OF assms(1)])
qed

theorem narrowing_exhausted_witness:
  "fst (recursive_search (logging_site crowded (\<lambda>f. Inr many_links)) 3
     \<lparr>first = ''A'', last = ''B'', middle = ''C'', state = ''CA''\<rparr> [])
     = Inr [''https://npidb.org/npi/2'']
   \<and> recursive_search (logging_site crowded (\<lambda>f. Inr many_links)) 3
     \<lparr>first = ''AA'', last = ''BB'', middle = ''CC'', state = ''CA''\<rparr> []
     = (Inr (map absolute_url (take 30 many_links)),
        [Probed \<lparr>first = ''AA'', last = ''BB'', middle = ''CC'', state = ''CA''\<rparr>,
         Direct \<lparr>first = ''AA'', last = ''BB'', middle = ''CC'', state = ''CA''\<rparr>])"
proof -
  let ?S = "logging_site crowded (\<lambda>f. Inr many_links)"
  let ?f = "\<lparr>first = ''A'', last = ''B'', middle = ''C'', state = ''CA''\<rparr>"
  let ?g = "\<lparr>first = ''AA'', last = ''BB'', middle = ''CC'', state = ''CA''\<rparr>"
  let ?cs = "map (\<lambda>c. ?f\<lparr>first := first ?f @ [c]\<rparr>) ALPHABET"
  have "crowded ?f = many_links" by (simp add: crowded_def)
  then have pf: "retry_operation ?S 3 (search_profiles ?S ?f) [] = (Inr (Some None), [] @ [Probed ?f])"
    by (intro logging_site_over_limit) simp_all
  have "crowded ?g = many_links" by (simp add: crowded_def)
  then have pg: "retry_operation ?S 3 (search_profiles ?S ?g) [] = (Inr (Some None), [] @ [Probed ?g])"
    by (intro logging_site_over_limit) simp_all
  have n: "npi_links ?S ?g [Probed ?g] = (Inr many_links, [Probed ?g, Direct ?g])"
    by (simp add: logging_site_simps)
  have few: "length (unique_results {} (crowded c)) \<le> 30" if "c \<in> set ?cs" for c
    using that by (auto simp add: ALPHABET_def crowded_def)
  have "concat (map (\<lambda>c. map absolute_url (unique_results {} (crowded c))) ?cs)
      = [''https://npidb.org/npi/2'']"
    by (simp add: ALPHABET_def crowded_def absolute_url_def)
  then have each: "fst (search_each ?S 3 ?cs [] [Probed ?f]) = Inr [''https://npidb.org/npi/2'']"
    using search_each_logging_within [where mr = 3 and cs = ?cs and results = crowded, OF _ few]
    by simp
  have nonempty: "filter (\<lambda>href. href \<noteq> []) (take 30 many_links) = take 30 many_links"
    by (simp add: many_links_def)
  show ?thesis
    using narrowing_exhausted [where S = ?S and mr = 3 and f = ?f and w = "[]"
        and r = "Some None" and ?w1.0 = "[Probed ?f]"]
      narrowing_exhausted [where S = ?S and mr = 3 and f = ?g and w = "[]"
        and r = "Some None" and ?w1.0 = "[Probed ?g]" and links = many_links
        and ?w2.0 = "[Probed ?g, Direct ?g]"]
      pf pg n each nonempty
    by simp
qed

section \<open>The union of the children\<close>

lemma search_each_child_results:
  "search_each S mr cs acc w =
     (case child_results S mr cs w of
        (Inl e, w') \<Rightarrow> (Inl e, w')
      | (Inr rs, w') \<Rightarrow> (Inr (acc @ concat rs), w'))"
proof (induction cs arbitrary: acc w)
  case Nil
  show ?case by simp
next
  case (Cons c cs)
  show ?case
  proof (cases "recursive_search S mr c w")
    case (Pair res w1)
    show ?thesis
    proof (cases res)
      case (Inl e)
      with Pair show ?thesis by simp
    next
      case (Inr urls)
      with Pair show ?thesis
        by (simp add: Cons.IH split: prod.splits sum.splits)
    qed
  qed
qed

lemma search_each_appended: "search_each S mr cs [] w = appended (child_results S mr cs w)"
  by (simp add: search_each_child_results split: prod.splits sum.splits)

lemma child_results_logging_within:
  assumes "0 < mr" and "\<And>c. c \<in> set cs \<Longrightarrow> length (unique_results {} (results c)) \<le> 30"
  shows "child_results (logging_site results direct) mr cs w
    = (Inr (map (\<lambda>c. map absolute_url (unique_results {} (results c))) cs), w @ map Probed cs)"
  using assms(2)
proof (induction cs arbitrary: w)
  case Nil
  then show ?case by simp
next
  case (Cons c cs)
  then show ?case
    by (simp add: logging_site_within_limit [OF assms(1)])
qed

text \<open>
  C4, as amended: for a filter over the limit, \<open>recursive_search\<close> returns the lists of its
  children put one after the other in the order of the children, every duplicate kept, each
  child searched in the world the one before left, and the exception of the first child
  that raises.  The children set the last initial over the 26 letters when the last name,
  the middle name and the state are open, else the middle initial over the 26 letters when
  the middle name and the state are open, else the state over the 50 states.
\<close>

theorem over_limit_appends_children:
  assumes "retry_operation S mr (search_profiles S f) w = (Inr r, w1)" and "returned r = None"
  shows
    "(last f = [] \<and> middle f = [] \<and> state f = [] \<longrightarrow>
        recursive_search S mr f w
          = appended (child_results S mr (map (\<lambda>l. f\<lparr>last := [l]\<rparr>) ALPHABET) w1))
     \<and> (last f \<noteq> [] \<and> middle f = [] \<and> state f = [] \<longrightarrow>
        recursive_search S mr f w
          = appended (child_results S mr (map (\<lambda>m. f\<lparr>middle := [m]\<rparr>) ALPHABET) w1))
     \<and> (last f \<noteq> [] \<and> middle f \<noteq> [] \<and> state f = [] \<longrightarrow>
        recursive_search S mr f w
          = appended (child_results S mr (map (\<lambda>s. f\<lparr>state := s\<rparr>) STATES) w1))
     \<and> length ALPHABET = 26 \<and> length STATES = 50"
proof -
  note eq = recursive_search_over_limit [OF assms]
  have l: "middle f = [] \<Longrightarrow> state f = [] \<Longrightarrow> (\<lambda>l. f\<lparr>last := [l]\<rparr>)
      = (\<lambda>l. \<lparr>first = first f, last = [l], middle = [], state = []\<rparr>)"
    by (cases f) simp
  have m: "state f = [] \<Longrightarrow> (\<lambda>m. f\<lparr>middle := [m]\<rparr>)
      = (\<lambda>m. \<lparr>first = first f, last = last f, middle = [m], state = []\<rparr>)"
    by (cases f) simp
  have s: "(\<lambda>s. f\<lparr>state := s\<rparr>)
      = (\<lambda>s. \<lparr>first = first f, last = last f, middle = middle f, state = s\<rparr>)"
    by (cases f) simp
  have n: "length ALPHABET = 26" "length STATES = 50"
    by (simp_all add: ALPHABET_def STATES_def)
  show ?thesis
    by (simp add: eq l m s n search_each_appended)
qed

lemma overlapping_search:
  "recursive_search (logging_site overlapping direct) 3
     \<lparr>first = ''A'', last = [], middle = md, state = st\<rparr> []
   = (Inr [''https://npidb.org/npi/1'', ''https://npidb.org/npi/1''],
      Probed \<lparr>first = ''A'', last = [], middle = md, state = st\<rparr>
        # map (\<lambda>l. Probed \<lparr>first = ''A'', last = [l], middle = [], state = []\<rparr>) ALPHABET)"
proof -
  let ?S = "logging_site overlapping direct"
  let ?f = "\<lparr>first = ''A'', last = [], middle = md, state = st\<rparr>"
  let ?cs = "map (\<lambda>l. \<lparr>first = ''A'', last = [l], middle = [], state = []\<rparr>) ALPHABET"
  have "overlapping ?f = many_links" by (simp add: overlapping_def)
  then have p: "retry_operation ?S 3 (search_profiles ?S ?f) [] = (Inr (Some None), [] @ [Probed ?f])"
    by (intro logging_site_over_limit) simp_all
  have few: "length (unique_results {} (overlapping c)) \<le> 30" if "c \<in> set ?cs" for c
    using that by (auto simp add: ALPHABET_def overlapping_def)
  have "concat (map (\<lambda>c. map absolute_url (unique_results {} (overlapping c))) ?cs)
      = [''https://npidb.org/npi/1'', ''https://npidb.org/npi/1'']"
    by (simp add: ALPHABET_def overlapping_def absolute_url_def)
  then have "search_each ?S 3 ?cs [] [Probed ?f]
      = (Inr [''https://npidb.org/npi/1'', ''https://npidb.org/npi/1''], [Probed ?f] @ map Probed ?cs)"
    using search_each_logging_within [where mr = 3 and cs = ?cs and results = overlapping
        and acc = "[]" and w = "[Probed ?f]" and direct = direct, OF _ few]
    by simp
  then show ?thesis
    using recursive_search_over_limit [OF p] by (simp add: comp_def)
qed

theorem over_limit_appends_children_witness:
  "appended (child_results (logging_site overlapping (\<lambda>f. Inr [])) 3
        (map (\<lambda>l. \<lparr>first = ''A'', last = [], middle = [], state = []\<rparr>\<lparr>last := [l]\<rparr>) ALPHABET)
        [Probed \<lparr>first = ''A'', last = [], middle = [], state = []\<rparr>])
    = (Inr [''https://npidb.org/npi/1'', ''https://npidb.org/npi/1''],
       Probed \<lparr>first = ''A'', last = [], middle = [], state = []\<rparr>
         # map (\<lambda>l. Probed \<lparr>first = ''A'', last = [l], middle = [], state = []\<rparr>) ALPHABET)"
proof -
  let ?S = "logging_site overlapping (\<lambda>f. Inr [])"
  let ?f = "\<lparr>first = ''A'', last = [], middle = [], state = []\<rparr>"
  have "overlapping ?f = many_links" by (simp add: overlapping_def)
  then have p: "retry_operation ?S 3 (search_profiles ?S ?f) [] = (Inr (Some None), [] @ [Probed ?f])"
    by (intro logging_site_over_limit) simp_all
  show ?thesis
    using over_limit_appends_children [where S = ?S and mr = 3 and f = ?f and w = "[]"
        and r = "Some None" and ?w1.0 = "[Probed ?f]"] p
      overlapping_search [where direct = "\<lambda>f. Inr []" and md = "[]" and st = "[]"]
    by simp
qed

text \<open>
  C4 as first stated fails: the profile that the last initials A and B both find is twice in
  the list returned for the first initial A, which is not the union without duplicates.
\<close>

theorem over_limit_keeps_duplicates:
  "fst (recursive_search (logging_site overlapping (\<lambda>f. Inr [])) 3
      \<lparr>first = ''A'', last = [], middle = [], state = []\<rparr> [])
    = Inr [''https://npidb.org/npi/1'', ''https://npidb.org/npi/1'']
   \<and> fst (recursive_search (logging_site overlapping (\<lambda>f. Inr [])) 3
      \<lparr>first = ''A'', last = [], middle = [], state = []\<rparr> [])
    \<noteq> Inr (remdups [''https://npidb.org/npi/1'', ''https://npidb.org/npi/1''])"
  by (simp add: overlapping_search)

section \<open>Fields cleared by the narrowing\<close>

text \<open>
  C2: started on the first initial A with the middle name M, the state CA and no last
  name, over the limit, \<open>recursive_search\<close> probes the 26 children with an empty middle name
  and an empty state: both fields of the parent are cleared.
\<close>

theorem narrowing_clears_middle_and_state:
  "snd (recursive_search (logging_site overlapping (\<lambda>f. Inr [])) 3
      \<lparr>first = ''A'', last = [], middle = ''M'', state = ''CA''\<rparr> [])
    = Probed \<lparr>first = ''A'', last = [], middle = ''M'', state = ''CA''\<rparr>
        # map (\<lambda>l. Probed \<lparr>first = ''A'', last = [l], middle = [], state = []\<rparr>) ALPHABET"
  by (simp add: overlapping_search)

section \<open>Runs of the orchestrator\<close>

lemma logging_site_extract:
  assumes "0 < mr"
  shows "retry_operation (logging_site results direct) mr
           (extract_profile_data (logging_site results direct) u) w
         = (Inr (Some \<lparr>URL = u, NPI = ''1234567890'', Address = ''1 MAIN ST'', others = []\<rparr>),
            w @ [Fetched u])"
proof -
  have "extract_profile_data (logging_site results direct) u w
      = (Inr \<lparr>URL = u, NPI = ''1234567890'', Address = ''1 MAIN ST'', others = []\<rparr>,
         w @ [Fetched u])"
    by (simp add: extract_profile_data_def logging_site_def)
  with assms show ?thesis by (rule retry_first_attempt)
qed

lemma overlapping_discovery:
  "scrape_search_results (logging_site overlapping direct) 3
     \<lparr>first = ''A'', last = [], middle = [], state = []\<rparr> []
   = (Inr [''https://npidb.org/npi/1'', ''https://npidb.org/npi/1''],
      Probed \<lparr>first = ''A'', last = [], middle = [], state = []\<rparr>
        # map (\<lambda>l. Probed \<lparr>first = ''A'', last = [l], middle = [], state = []\<rparr>) ALPHABET)"
  by (simp add: scrape_search_results_def overlapping_search)

lemma overlapping_first_run:
  "scrape_all (logging_site overlapping direct) 3
     \<lparr>first = ''A'', last = [], middle = [], state = []\<rparr> Missing None []
   = (Inr \<lparr>csv = Table fieldnames
              [\<lparr>URL = ''https://npidb.org/npi/1'', NPI = ''1234567890'', Address = ''1 MAIN ST'',
                others = []\<rparr>,
               \<lparr>URL = ''https://npidb.org/npi/1'', NPI = ''1234567890'', Address = ''1 MAIN ST'',
                others = []\<rparr>],
            all_data =
              [Some \<lparr>URL = ''https://npidb.org/npi/1'', NPI = ''1234567890'',
                     Address = ''1 MAIN ST'', others = []\<rparr>,
               Some \<lparr>URL = ''https://npidb.org/npi/1'', NPI = ''1234567890'',
                     Address = ''1 MAIN ST'', others = []\<rparr>],
            successful_count = 2, failed_count = 0, checkpoint = None\<rparr>,
      (Probed \<lparr>first = ''A'', last = [], middle = [], state = []\<rparr>
        # map (\<lambda>l. Probed \<lparr>first = ''A'', last = [l], middle = [], state = []\<rparr>) ALPHABET)
      @ [Fetched ''https://npidb.org/npi/1'', Fetched ''https://npidb.org/npi/1''])"
  by (simp add: scrape_all_def overlapping_discovery urls_to_scrape_def logging_site_extract
      Let_def)

text \<open>
  Without a first initial the list goes through \<^verbatim>\<open>list(set(all_urls))\<close> and holds no URL twice.
\<close>

lemma unconstrained_discovery_distinct:
  assumes "first params = []" and "\<And>xs. distinct (list_of_set S xs)"
    and "scrape_search_results S mr params w = (Inr all_urls, w1)"
  shows "distinct all_urls"
  using assms by (auto simp add: scrape_search_results_def split: prod.splits sum.splits)

text \<open>
  C1: with the first initial fixed to A and one profile found under two last initials, the
  list of \<open>recursive_search\<close> goes to the loop as it is and the profile is fetched twice in the
  run.
\<close>

theorem fixed_first_initial_fetches_twice:
  "snd (scrape_all (logging_site overlapping (\<lambda>f. Inr [])) 3
     \<lparr>first = ''A'', last = [], middle = [], state = []\<rparr> Missing None [])
   = (Probed \<lparr>first = ''A'', last = [], middle = [], state = []\<rparr>
        # map (\<lambda>l. Probed \<lparr>first = ''A'', last = [l], middle = [], state = []\<rparr>) ALPHABET)
      @ [Fetched ''https://npidb.org/npi/1'', Fetched ''https://npidb.org/npi/1'']"
  by (simp add: overlapping_first_run)

text \<open>
  C7: when every URL that the discovery returns is in the URL column of the output file,
  no URL is left to scrape: \<open>scrape_all\<close> appends no row to the file, fetches no profile (the
  world is the one the discovery left) and counts nothing.
\<close>

theorem resume_appends_nothing:
  assumes "scrape_search_results S mr params w = (Inr all_urls, w1)"
    and "set all_urls \<subseteq> scraped_urls csv_file"
  shows "scrape_all S mr params csv_file cp w
      = (Inr \<lparr>csv = write_header csv_file, all_data = [], successful_count = 0,
               failed_count = 0, checkpoint = cp\<rparr>, w1)
    \<and> rows_of (write_header csv_file) = rows_of csv_file
    \<and> urls_to_scrape all_urls csv_file = []"
proof -
  from assms(2) have none: "urls_to_scrape all_urls csv_file = []"
    by (auto simp add: urls_to_scrape_def filter_empty_conv)
  have "rows_of (write_header csv_file) = rows_of csv_file"
    by (cases csv_file) simp_all
  with none assms(1) show ?thesis
    by (simp add: scrape_all_def)
qed

text \<open>The second run on the file that the first run above wrote.\<close>

theorem resume_appends_nothing_witness:
  "scrape_all (logging_site overlapping (\<lambda>f. Inr [])) 3
     \<lparr>first = ''A'', last = [], middle = [], state = []\<rparr>
     (Table fieldnames
        [\<lparr>URL = ''https://npidb.org/npi/1'', NPI = ''1234567890'', Address = ''1 MAIN ST'',
          others = []\<rparr>,
         \<lparr>URL = ''https://npidb.org/npi/1'', NPI = ''1234567890'', Address = ''1 MAIN ST'',
          others = []\<rparr>]) None []
   = (Inr \<lparr>csv = Table fieldnames
              [\<lparr>URL = ''https://npidb.org/npi/1'', NPI = ''1234567890'', Address = ''1 MAIN ST'',
                others = []\<rparr>,
               \<lparr>URL = ''https://npidb.org/npi/1'', NPI = ''1234567890'', Address = ''1 MAIN ST'',
                others = []\<rparr>],
            all_data = [], successful_count = 0, failed_count = 0, checkpoint = None\<rparr>,
      Probed \<lparr>first = ''A'', last = [], middle = [], state = []\<rparr>
        # map (\<lambda>l. Probed \<lparr>first = ''A'', last = [l], middle = [], state = []\<rparr>) ALPHABET)"
proof -
  let ?S = "logging_site overlapping (\<lambda>f. Inr [])"
  let ?row = "\<lparr>URL = ''https://npidb.org/npi/1'', NPI = ''1234567890'', Address = ''1 MAIN ST'',
    others = []\<rparr>"
  have "set [''https://npidb.org/npi/1'', ''https://npidb.org/npi/1'']
      \<subseteq> scraped_urls (Table fieldnames [?row, ?row])"
    by (simp add: fieldnames_def)
  from resume_appends_nothing [OF overlapping_discovery this, where cp = None and direct1 = "\<lambda>f. Inr []"]
  show ?thesis by simp
qed

section \<open>The finalizer keeps the first row of an identifier\<close>

lemma drop_duplicates_first:
  "r \<in> set (drop_duplicates seen rs) \<longleftrightarrow> NPI r \<notin> seen \<and> find (\<lambda>x. NPI x = NPI r) rs = Some r"
proof (induction rs arbitrary: seen)
  case Nil
  show ?case by simp
next
  case (Cons a rs)
  show ?case
    by (auto simp add: Cons.IH)
qed

lemma drop_duplicates_distinct: "distinct (map NPI (drop_duplicates seen rs))"
proof (induction rs arbitrary: seen)
  case Nil
  show ?case by simp
next
  case (Cons a rs)
  have "NPI a \<notin> NPI ` set (drop_duplicates (insert (NPI a) seen) rs)"
    by (auto simp add: drop_duplicates_first)
  then show ?case
    by (simp add: Cons.IH)
qed

lemma clean_data_unfold:
  "clean_data data = filter (\<lambda>r. npi_match (NPI r))
     (map (\<lambda>r. r\<lparr>Address := standardize_address (Address r)\<rparr>) (drop_duplicates {} data))"
  by (simp add: clean_data_def)

lemma clean_data_member:
  "r' \<in> set (clean_data data) \<longleftrightarrow>
     (\<exists>r. find (\<lambda>x. NPI x = NPI r) data = Some r \<and> npi_match (NPI r)
        \<and> r' = r\<lparr>Address := standardize_address (Address r)\<rparr>)"
  by (auto simp add: clean_data_unfold drop_duplicates_first)

lemma find_first_of_member:
  "r \<in> set rs \<Longrightarrow> \<exists>r0. find (\<lambda>x. NPI x = NPI r) rs = Some r0 \<and> NPI r0 = NPI r"
  by (induction rs) auto

text \<open>
  \<open>clean_data\<close> drops the rows whose NPI was seen before, standardizes the addresses and keeps
  the rows whose NPI matches ten digits.  For every row of the input with a valid NPI, the
  first row of the input with that NPI is in the output, with its address standardized;
  the output holds first rows only, and no NPI twice.
\<close>

lemma clean_data_first_rows:
  "clean_data data = filter (\<lambda>r. npi_match (NPI r))
     (map (\<lambda>r. r\<lparr>Address := standardize_address (Address r)\<rparr>) (drop_duplicates {} data))
   \<and> (\<forall>r \<in> set data. npi_match (NPI r) \<longrightarrow>
        (\<exists>r0. find (\<lambda>x. NPI x = NPI r) data = Some r0
           \<and> r0\<lparr>Address := standardize_address (Address r0)\<rparr> \<in> set (clean_data data)))
   \<and> (\<forall>r' \<in> set (clean_data data).
        \<exists>r0. find (\<lambda>x. NPI x = NPI r') data = Some r0
           \<and> r' = r0\<lparr>Address := standardize_address (Address r0)\<rparr>)
   \<and> distinct (map NPI (clean_data data))"
proof (intro conjI ballI impI)
  show "clean_data data = filter (\<lambda>r. npi_match (NPI r))
     (map (\<lambda>r. r\<lparr>Address := standardize_address (Address r)\<rparr>) (drop_duplicates {} data))"
    by (rule clean_data_unfold)
next
  fix r assume "r \<in> set data" and v: "npi_match (NPI r)"
  then obtain r0 where r0: "find (\<lambda>x. NPI x = NPI r) data = Some r0" "NPI r0 = NPI r"
    by (blast dest: find_first_of_member)
  then have "find (\<lambda>x. NPI x = NPI r0) data = Some r0 \<and> npi_match (NPI r0)
      \<and> r0\<lparr>Address := standardize_address (Address r0)\<rparr>
        = r0\<lparr>Address := standardize_address (Address r0)\<rparr>"
    using v by simp
  then have "r0\<lparr>Address := standardize_address (Address r0)\<rparr> \<in> set (clean_data data)"
    unfolding clean_data_member by (rule exI)
  with r0(1) show "\<exists>r0. find (\<lambda>x. NPI x = NPI r) data = Some r0
           \<and> r0\<lparr>Address := standardize_address (Address r0)\<rparr> \<in> set (clean_data data)"
    by blast
next
  fix r' assume "r' \<in> set (clean_data data)"
  then show "\<exists>r0. find (\<lambda>x. NPI x = NPI r') data = Some r0
           \<and> r' = r0\<lparr>Address := standardize_address (Address r0)\<rparr>"
    unfolding clean_data_member by auto
next
  have "map NPI (map (\<lambda>r. r\<lparr>Address := standardize_address (Address r)\<rparr>) (drop_duplicates {} data))
      = map NPI (drop_duplicates {} data)"
    by simp
  then have "distinct (map NPI (map (\<lambda>r. r\<lparr>Address := standardize_address (Address r)\<rparr>)
      (drop_duplicates {} data)))"
    by (simp only: drop_duplicates_distinct)
  then show "distinct (map NPI (clean_data data))"
    unfolding clean_data_unfold by (simp only: distinct_map_filter)
qed


text \<open>
  The validation reads the NPI only, so the rows of one NPI are valid together or invalid
  together, and validating before or after the removal of the duplicates gives the same
  rows.
\<close>

lemma drop_duplicates_insert_invalid:
  "\<not> npi_match k \<Longrightarrow>
   filter (\<lambda>r. npi_match (NPI r)) (drop_duplicates (insert k seen) rs)
     = filter (\<lambda>r. npi_match (NPI r)) (drop_duplicates seen rs)"
proof (induction rs arbitrary: seen)
  case Nil
  show ?case by simp
next
  case (Cons a rs)
  show ?case
  proof (cases "NPI a = k")
    case True
    with Cons show ?thesis by simp
  next
    case False
    with Cons.IH [OF Cons.prems, of "insert (NPI a) seen"] Cons.IH [OF Cons.prems, of seen]
    show ?thesis by (simp add: insert_commute)
  qed
qed

lemma validation_before_duplicates:
  "drop_duplicates seen (filter (\<lambda>r. npi_match (NPI r)) rs)
     = filter (\<lambda>r. npi_match (NPI r)) (drop_duplicates seen rs)"
proof (induction rs arbitrary: seen)
  case Nil
  show ?case by simp
next
  case (Cons a rs)
  show ?case
  proof (cases "npi_match (NPI a)")
    case True
    then show ?thesis by (simp add: Cons.IH)
  next
    case False
    then show ?thesis
      by (simp add: Cons.IH drop_duplicates_insert_invalid)
  qed
qed

text \<open>
  An invalid row, then two rows with the same valid NPI: the first of the two is kept.
\<close>

lemma standardize_main_st: "standardize_address ''1 MAIN ST'' = ''1 MAIN Street''"
  by (simp add: standardize_address_def lower_def lower_char_def is_word_char_def)

lemma npi_match_examples: "npi_match ''1234567890''" "\<not> npi_match ''12''"
  by (simp_all add: npi_match_def is_digit_def)

lemma clean_data_first_rows_example:
  "clean_data
     [\<lparr>URL = ''u0'', NPI = ''12'', Address = ''9 ELM ST'', others = []\<rparr>,
      \<lparr>URL = ''u1'', NPI = ''1234567890'', Address = ''1 MAIN ST'', others = []\<rparr>,
      \<lparr>URL = ''u2'', NPI = ''1234567890'', Address = ''2 OAK AVE'', others = []\<rparr>]
   = [\<lparr>URL = ''u1'', NPI = ''1234567890'', Address = ''1 MAIN Street'', others = []\<rparr>]"
proof -
  let ?data = "[\<lparr>URL = ''u0'', NPI = ''12'', Address = ''9 ELM ST'', others = []\<rparr>,
      \<lparr>URL = ''u1'', NPI = ''1234567890'', Address = ''1 MAIN ST'', others = []\<rparr>,
      \<lparr>URL = ''u2'', NPI = ''1234567890'', Address = ''2 OAK AVE'', others = []\<rparr>]"
  have "drop_duplicates {} ?data
      = [\<lparr>URL = ''u0'', NPI = ''12'', Address = ''9 ELM ST'', others = []\<rparr>,
         \<lparr>URL = ''u1'', NPI = ''1234567890'', Address = ''1 MAIN ST'', others = []\<rparr>]"
    by simp
  then show ?thesis
    using clean_data_first_rows [of ?data]
    by (simp add: standardize_main_st npi_match_examples)
qed

section \<open>The expansion of the address\<close>

lemma lower_char_cases:
  "lower_char c = c \<or> c \<in> set (''ABCDEFGHIJKLMNOPQRSTUVWXYZ'' @
     [CHR 0xC0, CHR 0xC1, CHR 0xC2, CHR 0xC3, CHR 0xC4, CHR 0xC5, CHR 0xC6, CHR 0xC7,
     CHR 0xC8, CHR 0xC9, CHR 0xCA, CHR 0xCB, CHR 0xCC, CHR 0xCD, CHR 0xCE, CHR 0xCF,
     CHR 0xD0, CHR 0xD1, CHR 0xD2, CHR 0xD3, CHR 0xD4, CHR 0xD5, CHR 0xD6, CHR 0xD8,
     CHR 0xD9, CHR 0xDA, CHR 0xDB, CHR 0xDC, CHR 0xDD, CHR 0xDE])"
proof (cases "map_of
    (zip (''ABCDEFGHIJKLMNOPQRSTUVWXYZ'' @
     [CHR 0xC0, CHR 0xC1, CHR 0xC2, CHR 0xC3, CHR 0xC4, CHR 0xC5, CHR 0xC6, CHR 0xC7,
     CHR 0xC8, CHR 0xC9, CHR 0xCA, CHR 0xCB, CHR 0xCC, CHR 0xCD, CHR 0xCE, CHR 0xCF,
     CHR 0xD0, CHR 0xD1, CHR 0xD2, CHR 0xD3, CHR 0xD4, CHR 0xD5, CHR 0xD6, CHR 0xD8,
     CHR 0xD9, CHR 0xDA, CHR 0xDB, CHR 0xDC, CHR 0xDD, CHR 0xDE])
      (''abcdefghijklmnopqrstuvwxyz'' @
     [CHR 0xE0, CHR 0xE1, CHR 0xE2, CHR 0xE3, CHR 0xE4, CHR 0xE5, CHR 0xE6, CHR 0xE7,
     CHR 0xE8, CHR 0xE9, CHR 0xEA, CHR 0xEB, CHR 0xEC, CHR 0xED, CHR 0xEE, CHR 0xEF,
     CHR 0xF0, CHR 0xF1, CHR 0xF2, CHR 0xF3, CHR 0xF4, CHR 0xF5, CHR 0xF6, CHR 0xF8,
     CHR 0xF9, CHR 0xFA, CHR 0xFB, CHR 0xFC, CHR 0xFD, CHR 0xFE])) c")
  case None
  then show ?thesis by (simp add: lower_char_def)
next
  case (Some l)
  then have "(c, l) \<in> set
    (zip (''ABCDEFGHIJKLMNOPQRSTUVWXYZ'' @
     [CHR 0xC0, CHR 0xC1, CHR 0xC2, CHR 0xC3, CHR 0xC4, CHR 0xC5, CHR 0xC6, CHR 0xC7,
     CHR 0xC8, CHR 0xC9, CHR 0xCA, CHR 0xCB, CHR 0xCC, CHR 0xCD, CHR 0xCE, CHR 0xCF,
     CHR 0xD0, CHR 0xD1, CHR 0xD2, CHR 0xD3, CHR 0xD4, CHR 0xD5, CHR 0xD6, CHR 0xD8,
     CHR 0xD9, CHR 0xDA, CHR 0xDB, CHR 0xDC, CHR 0xDD, CHR 0xDE])
      (''abcdefghijklmnopqrstuvwxyz'' @
     [CHR 0xE0, CHR 0xE1, CHR 0xE2, CHR 0xE3, CHR 0xE4, CHR 0xE5, CHR 0xE6, CHR 0xE7,
     CHR 0xE8, CHR 0xE9, CHR 0xEA, CHR 0xEB, CHR 0xEC, CHR 0xED, CHR 0xEE, CHR 0xEF,
     CHR 0xF0, CHR 0xF1, CHR 0xF2, CHR 0xF3, CHR 0xF4, CHR 0xF5, CHR 0xF6, CHR 0xF8,
     CHR 0xF9, CHR 0xFA, CHR 0xFB, CHR 0xFC, CHR 0xFD, CHR 0xFE]))"
    by (rule map_of_SomeD)
  then have "c \<in> set (''ABCDEFGHIJKLMNOPQRSTUVWXYZ'' @
     [CHR 0xC0, CHR 0xC1, CHR 0xC2, CHR 0xC3, CHR 0xC4, CHR 0xC5, CHR 0xC6, CHR 0xC7,
     CHR 0xC8, CHR 0xC9, CHR 0xCA, CHR 0xCB, CHR 0xCC, CHR 0xCD, CHR 0xCE, CHR 0xCF,
     CHR 0xD0, CHR 0xD1, CHR 0xD2, CHR 0xD3, CHR 0xD4, CHR 0xD5, CHR 0xD6, CHR 0xD8,
     CHR 0xD9, CHR 0xDA, CHR 0xDB, CHR 0xDC, CHR 0xDD, CHR 0xDE])"
    by (rule set_zip_leftD)
  then show ?thesis ..
qed

lemma upper_is_word_char:
  "c \<in> set (''ABCDEFGHIJKLMNOPQRSTUVWXYZ'' @
     [CHR 0xC0, CHR 0xC1, CHR 0xC2, CHR 0xC3, CHR 0xC4, CHR 0xC5, CHR 0xC6, CHR 0xC7,
     CHR 0xC8, CHR 0xC9, CHR 0xCA, CHR 0xCB, CHR 0xCC, CHR 0xCD, CHR 0xCE, CHR 0xCF,
     CHR 0xD0, CHR 0xD1, CHR 0xD2, CHR 0xD3, CHR 0xD4, CHR 0xD5, CHR 0xD6, CHR 0xD8,
     CHR 0xD9, CHR 0xDA, CHR 0xDB, CHR 0xDC, CHR 0xDD, CHR 0xDE]) \<Longrightarrow> is_word_char c"
  by (auto simp add: is_word_char_def)

lemma lower_char_word:
  assumes "is_word_char (lower_char c)"
  shows "is_word_char c"
proof (cases "lower_char c = c")
  case True
  with assms show ?thesis by simp
next
  case False
  with lower_char_cases [of c] have "c \<in> set (''ABCDEFGHIJKLMNOPQRSTUVWXYZ'' @
     [CHR 0xC0, CHR 0xC1, CHR 0xC2, CHR 0xC3, CHR 0xC4, CHR 0xC5, CHR 0xC6, CHR 0xC7,
     CHR 0xC8, CHR 0xC9, CHR 0xCA, CHR 0xCB, CHR 0xCC, CHR 0xCD, CHR 0xCE, CHR 0xCF,
     CHR 0xD0, CHR 0xD1, CHR 0xD2, CHR 0xD3, CHR 0xD4, CHR 0xD5, CHR 0xD6, CHR 0xD8,
     CHR 0xD9, CHR 0xDA, CHR 0xDB, CHR 0xDC, CHR 0xDD, CHR 0xDE])"
    by blast
  then show ?thesis by (rule upper_is_word_char)
qed

lemma startswith_iff: "startswith s p \<longleftrightarrow> (\<exists>t. s = p @ t)"
  by (induction s p rule: startswith.induct) auto

lemma length_lower [simp]: "length (lower s) = length s"
  by (simp add: lower_def)

lemma lower_append: "lower (a @ b) = lower a @ lower b"
  by (simp add: lower_def)

text \<open>A character that is no word character is copied; the scan is outside a word behind it.\<close>

lemma sub_word_separator_char:
  assumes "pat \<noteq> []" and "list_all is_word_char pat" and "\<not> is_word_char c"
  shows "sub_word pat repl prev (c # cs) = c # sub_word pat repl False cs"
proof -
  from assms(1) obtain p ps where pat: "pat = p # ps" by (cases pat) auto
  with assms(2) have "is_word_char p" by simp
  with assms(3) have "lower_char c \<noteq> p" by (auto dest: lower_char_word)
  then have "\<not> startswith (lower (c # cs)) pat"
    by (simp add: pat lower_def)
  with assms(3) show ?thesis by simp
qed

lemma sub_word_separator:
  assumes "pat \<noteq> []" and "list_all is_word_char pat"
  shows "list_all (\<lambda>c. \<not> is_word_char c) sep \<Longrightarrow> sep \<noteq> [] \<or> \<not> prev \<Longrightarrow>
    sub_word pat repl prev (sep @ rest) = sep @ sub_word pat repl False rest"
proof (induction sep arbitrary: prev)
  case Nil
  then show ?case by simp
next
  case (Cons c sep)
  from Cons.prems(1) have c: "\<not> is_word_char c" and sep: "list_all (\<lambda>c. \<not> is_word_char c) sep"
    by simp_all
  have "sub_word pat repl prev ((c # sep) @ rest) = c # sub_word pat repl False (sep @ rest)"
    using sub_word_separator_char [OF assms c] by simp
  also have "sub_word pat repl False (sep @ rest) = sep @ sub_word pat repl False rest"
    using sep by (intro Cons.IH) simp_all
  finally show ?case by simp
qed

text \<open>Inside a word nothing matches.\<close>

lemma sub_word_inside:
  "list_all is_word_char word \<Longrightarrow>
   sub_word pat repl True (word @ rest) = word @ sub_word pat repl True rest"
  by (induction word) simp_all

text \<open>A whole word is replaced when it is the pattern, in whatever case, and copied otherwise.\<close>

lemma sub_word_whole_word:
  assumes pat: "pat \<noteq> []" "list_all is_word_char pat"
    and word: "word \<noteq> []" "list_all is_word_char word"
    and rest: "rest = [] \<or> \<not> is_word_char (hd rest)"
  shows "sub_word pat repl False (word @ rest)
    = (if lower word = pat then repl else word) @ sub_word pat repl True rest"
proof -
  from word(1) obtain c cs where w: "word = c # cs" by (cases word) auto
  let ?after = "drop (length pat) (word @ rest)"
  let ?matches = "startswith (lower (word @ rest)) pat
    \<and> (case ?after of [] \<Rightarrow> True | d # ds \<Rightarrow> \<not> is_word_char d)"
  have iff: "?matches \<longleftrightarrow> lower word = pat"
  proof
    assume eq: "lower word = pat"
    then have len: "length pat = length word" by (metis length_lower)
    have "startswith (lower (word @ rest)) pat"
      by (simp add: startswith_iff lower_append eq)
    moreover have "?after = rest" by (simp add: len)
    ultimately show ?matches using rest by (cases rest) simp_all
  next
    assume m: ?matches
    then obtain t where t: "lower word @ lower rest = pat @ t"
      by (auto simp add: startswith_iff lower_append)
    have "\<not> length pat < length word"
    proof
      assume less: "length pat < length word"
      then have "?after = drop (length pat) word @ rest" by simp
      moreover from less obtain d ds where d: "drop (length pat) word = d # ds"
        by (cases "drop (length pat) word") simp_all
      moreover have "is_word_char d"
      proof -
        have "d \<in> set (drop (length pat) word)" using d by simp
        then have "d \<in> set word" by (rule in_set_dropD)
        with word(2) show ?thesis by (simp add: list_all_iff)
      qed
      ultimately show False using m by simp
    qed
    moreover have "\<not> length word < length pat"
    proof
      assume less: "length word < length pat"
      from t have "take (length word) (lower word @ lower rest) = take (length word) (pat @ t)"
        by simp
      with less have tk: "lower word = take (length word) pat" by simp
      from t have "drop (length word) (lower word @ lower rest) = drop (length word) (pat @ t)"
        by simp
      with less have dr: "lower rest = drop (length word) pat @ t" by simp
      from less obtain q qs where q: "drop (length word) pat = q # qs"
        by (cases "drop (length word) pat") simp_all
      then have "q \<in> set pat" by (metis in_set_dropD list.set_intros(1))
      with pat(2) have qw: "is_word_char q" by (simp add: list_all_iff)
      from dr q obtain r rs where r: "rest = r # rs" by (cases rest) (simp_all add: lower_def)
      with dr q have "lower_char r = q" by (simp add: lower_def)
      with qw have "is_word_char r" by (auto dest: lower_char_word)
      with rest r show False by simp
    qed
    ultimately have len: "length word = length pat" by simp
    with t show "lower word = pat" by simp
  qed
  show ?thesis
  proof (cases "lower word = pat")
    case True
    then have len: "length pat = length word" by (metis length_lower)
    from True iff have ?matches by simp
    then have "sub_word pat repl False (word @ rest)
        = repl @ sub_word pat repl True (drop (length pat - 1) (cs @ rest))"
      by (simp add: w)
    moreover have "drop (length pat - 1) (cs @ rest) = rest"
      by (simp add: len w)
    ultimately show ?thesis using True by simp
  next
    case False
    with iff have "\<not> ?matches" by simp
    then have "sub_word pat repl False (word @ rest)
        = c # sub_word pat repl (is_word_char c) (cs @ rest)"
      unfolding w by (subst append_Cons, subst sub_word.simps) (simp only: append_Cons if_False simp_thms)
    moreover from word(2) have "is_word_char c" "list_all is_word_char cs"
      by (simp_all add: w)
    ultimately show ?thesis
      using False by (simp add: sub_word_inside w)
  qed
qed


text \<open>One pass over an address that is cut into words and separators.\<close>

lemma sub_word_parts:
  assumes pat: "pat \<noteq> []" "list_all is_word_char pat"
  shows "well_split parts \<Longrightarrow>
    sub_word pat repl False (joined parts)
      = joined (map (\<lambda>(word, sep). (if lower word = pat then repl else word, sep)) parts)"
proof (induction parts)
  case Nil
  show ?case by (simp add: joined_def)
next
  case (Cons part parts)
  obtain word sep where part: "part = (word, sep)" by (cases part)
  from Cons.prems have word: "word \<noteq> []" "list_all is_word_char word"
    and sep: "list_all (\<lambda>c. \<not> is_word_char c) sep" and last: "sep = [] \<longrightarrow> parts = []"
    and split: "well_split parts"
    by (simp_all add: part)
  let ?e = "\<lambda>(word, sep). (if lower word = pat then repl else word, sep)"
  have j: "joined (part # parts) = word @ (sep @ joined parts)"
    by (simp add: joined_def part)
  have "sep @ joined parts = [] \<or> \<not> is_word_char (hd (sep @ joined parts))"
  proof (cases sep)
    case Nil
    with last show ?thesis by (simp add: joined_def)
  next
    case (Cons d ds)
    with sep show ?thesis by simp
  qed
  then have "sub_word pat repl False (joined (part # parts))
      = (if lower word = pat then repl else word) @ sub_word pat repl True (sep @ joined parts)"
    unfolding j by (rule sub_word_whole_word [OF pat word])
  also have "sub_word pat repl True (sep @ joined parts)
      = sep @ joined (map ?e parts)"
  proof (cases "sep = []")
    case True
    with last show ?thesis by (simp add: joined_def)
  next
    case False
    with sep have "sub_word pat repl True (sep @ joined parts)
        = sep @ sub_word pat repl False (joined parts)"
      by (intro sub_word_separator [OF pat]) simp_all
    with Cons.IH [OF split] show ?thesis by simp
  qed
  finally show ?case
    by (simp add: joined_def part)
qed

lemma well_split_expanded:
  assumes "repl \<noteq> []" and "list_all is_word_char repl"
  shows "well_split parts \<Longrightarrow>
    well_split (map (\<lambda>(word, sep). (if lower word = pat then repl else word, sep)) parts)"
proof (induction parts)
  case Nil
  show ?case by simp
next
  case (Cons part parts)
  then show ?case
    using assms by (cases part) auto
qed

lemma sub_word_address:
  assumes "pat \<noteq> []" and "list_all is_word_char pat"
    and "list_all (\<lambda>c. \<not> is_word_char c) lead" and "well_split parts"
  shows "sub_word pat repl False (lead @ joined parts)
    = lead @ joined (map (\<lambda>(word, sep). (if lower word = pat then repl else word, sep)) parts)"
proof -
  have "sub_word pat repl False (lead @ joined parts)
      = lead @ sub_word pat repl False (joined parts)"
    using assms(3) by (intro sub_word_separator [OF assms(1,2)]) simp_all
  with sub_word_parts [OF assms(1,2,4)] show ?thesis by simp
qed

lemma expansions_are_words:
  "list_all is_word_char ''st''" "list_all is_word_char ''ave''" "list_all is_word_char ''blvd''"
  "list_all is_word_char ''Street''" "list_all is_word_char ''Avenue''"
  "list_all is_word_char ''Boulevard''"
  by (simp_all add: is_word_char_def)

lemma lower_expansions:
  "lower ''Street'' = ''street''" "lower ''Avenue'' = ''avenue''"
  by (simp_all add: lower_def lower_char_def)

text \<open>Every address is cut into words and separators in this way.\<close>

lemma every_address_splits:
  "\<exists>lead parts. list_all (\<lambda>c. \<not> is_word_char c) lead \<and> well_split parts \<and> a = lead @ joined parts"
proof (induction a)
  case Nil
  have "list_all (\<lambda>c. \<not> is_word_char c) [] \<and> well_split [] \<and> [] = [] @ joined []"
    by (simp add: joined_def)
  then show ?case by blast
next
  case (Cons c a)
  then obtain lead parts where lead: "list_all (\<lambda>c. \<not> is_word_char c) lead"
    and parts: "well_split parts" and a: "a = lead @ joined parts"
    by blast
  show ?case
  proof (cases "is_word_char c")
    case False
    with lead parts a
    have "list_all (\<lambda>c. \<not> is_word_char c) (c # lead) \<and> well_split parts
        \<and> c # a = (c # lead) @ joined parts"
      by simp
    then show ?thesis by blast
  next
    case True
    show ?thesis
    proof (cases "lead = []")
      case False
      with True lead parts a
      have "list_all (\<lambda>c. \<not> is_word_char c) [] \<and> well_split (([c], lead) # parts)
          \<and> c # a = [] @ joined (([c], lead) # parts)"
        by (simp add: joined_def)
      then show ?thesis by blast
    next
      case empty: True
      show ?thesis
      proof (cases parts)
        case Nil
        with True empty a
        have "list_all (\<lambda>c. \<not> is_word_char c) [] \<and> well_split [([c], [])]
            \<and> c # a = [] @ joined [([c], [])]"
          by (simp add: joined_def)
        then show ?thesis by blast
      next
        case (Cons part rest)
        obtain word sep where part: "part = (word, sep)" by (cases part)
        with True empty a parts Cons
        have "list_all (\<lambda>c. \<not> is_word_char c) [] \<and> well_split ((c # word, sep) # rest)
            \<and> c # a = [] @ joined ((c # word, sep) # rest)"
          by (simp add: joined_def)
        then show ?thesis by blast
      qed
    qed
  qed
qed

lemma clean_data_addresses:
  "map Address (clean_data data)
     = map (\<lambda>r. standardize_address (Address r))
         (filter (\<lambda>r. npi_match (NPI r)) (drop_duplicates {} data))"
  by (simp add: clean_data_def filter_map comp_def)

text \<open>
  C9, as amended: the address of every row that \<open>clean_data\<close> returns is the standardized
  address of the row, and the standardization expands every whole word of the address that
  is ST, AVE or BLVD in whatever case, to Street, Avenue or Boulevard, wherever the word
  stands in the address and not only at its end; every other word, also one that holds
  such letters inside, and every separator is left as it is.  Words are the runs of the
  characters of Python's word class, accented letters included.  Every address is some
  \<open>lead @ joined parts\<close>, by \<open>every_address_splits\<close>.
\<close>

theorem standardize_address_every_word:
  assumes "list_all (\<lambda>c. \<not> is_word_char c) lead" and "well_split parts"
  shows "standardize_address (lead @ joined parts)
      = lead @ joined (map (\<lambda>(word, sep). (expand_word word, sep)) parts)
    \<and> map Address (clean_data data)
      = map (\<lambda>r. standardize_address (Address r))
          (filter (\<lambda>r. npi_match (NPI r)) (drop_duplicates {} data))"
proof -
  let ?e1 = "\<lambda>(word, sep). (if lower word = ''st'' then ''Street'' else word, sep)"
  let ?e2 = "\<lambda>(word, sep). (if lower word = ''ave'' then ''Avenue'' else word, sep)"
  let ?e3 = "\<lambda>(word :: string, sep :: string).
    (if lower word = ''blvd'' then ''Boulevard'' else word, sep)"
  have s1: "sub_word ''st'' ''Street'' False (lead @ joined parts) = lead @ joined (map ?e1 parts)"
    by (rule sub_word_address [OF _ expansions_are_words(1) assms]) simp
  have w1: "well_split (map ?e1 parts)"
    by (rule well_split_expanded [OF _ expansions_are_words(4) assms(2)]) simp
  have s2: "sub_word ''ave'' ''Avenue'' False (lead @ joined (map ?e1 parts))
      = lead @ joined (map ?e2 (map ?e1 parts))"
    by (rule sub_word_address [OF _ expansions_are_words(2) assms(1) w1]) simp
  have w2: "well_split (map ?e2 (map ?e1 parts))"
    by (rule well_split_expanded [OF _ expansions_are_words(5) w1]) simp
  have s3: "sub_word ''blvd'' ''Boulevard'' False (lead @ joined (map ?e2 (map ?e1 parts)))
      = lead @ joined (map ?e3 (map ?e2 (map ?e1 parts)))"
    by (rule sub_word_address [OF _ expansions_are_words(3) assms(1) w2]) simp
  have e: "map ?e3 (map ?e2 (map ?e1 parts)) = map (\<lambda>(word, sep). (expand_word word, sep)) parts"
    by (simp add: case_prod_unfold expand_word_def lower_expansions)
  have "standardize_address (lead @ joined parts)
      = lead @ joined (map (\<lambda>(word, sep). (expand_word word, sep)) parts)"
    by (simp only: standardize_address_def s1 s2 s3 e)
  with clean_data_addresses show ?thesis by simp
qed

text \<open>
  The address of the scenario; an address with other cases and a dot; an address whose
  last word only begins like an abbreviation; an ST behind an accented capital, which is a
  word character, and an ST between a multiplication and a division sign, which are not.
\<close>

theorem standardize_address_every_word_witness:
  "standardize_address ''123 MAIN ST'' = ''123 MAIN Street''
   \<and> standardize_address ''12 st. JAMES Blvd'' = ''12 Street. JAMES Boulevard''
   \<and> standardize_address ''7 WEST STAVE'' = ''7 WEST STAVE''
   \<and> standardize_address [CHR 0xC9, CHR ''S'', CHR ''T''] = [CHR 0xC9, CHR ''S'', CHR ''T'']
   \<and> standardize_address [CHR 0xD7, CHR ''S'', CHR ''T'', CHR 0xF7]
       = CHR 0xD7 # ''Street'' @ [CHR 0xF7]"
proof -
  have x: "expand_word ''123'' = ''123''" "expand_word ''MAIN'' = ''MAIN''"
    "expand_word ''ST'' = ''Street''" "expand_word ''12'' = ''12''"
    "expand_word ''st'' = ''Street''" "expand_word ''JAMES'' = ''JAMES''"
    "expand_word ''Blvd'' = ''Boulevard''" "expand_word ''7'' = ''7''"
    "expand_word ''WEST'' = ''WEST''" "expand_word ''STAVE'' = ''STAVE''"
    "expand_word [CHR 0xC9, CHR ''S'', CHR ''T''] = [CHR 0xC9, CHR ''S'', CHR ''T'']"
    by (simp_all add: expand_word_def lower_def lower_char_def)
  show ?thesis
    using standardize_address_every_word [where lead = "[]"
        and parts = "[(''123'', '' ''), (''MAIN'', '' ''), (''ST'', [])]" and data = "[]"]
      standardize_address_every_word [where lead = "[]"
        and parts = "[(''12'', '' ''), (''st'', ''. ''), (''JAMES'', '' ''), (''Blvd'', [])]"
        and data = "[]"]
      standardize_address_every_word [where lead = "[]"
        and parts = "[(''7'', '' ''), (''WEST'', '' ''), (''STAVE'', [])]" and data = "[]"]
      standardize_address_every_word [where lead = "[]"
        and parts = "[([CHR 0xC9, CHR ''S'', CHR ''T''], [])]" and data = "[]"]
      standardize_address_every_word [where lead = "[CHR 0xD7]"
        and parts = "[(''ST'', [CHR 0xF7])]" and data = "[]"]
    by (simp add: x joined_def is_word_char_def)
qed

text \<open>
  C9 as first stated fails: an ST that is a whole word but not the last one is expanded too.
\<close>

theorem clean_data_expands_inner_word:
  "map Address (clean_data
     [\<lparr>URL = ''u'', NPI = ''1234567890'', Address = ''12 ST JAMES RD'', others = []\<rparr>])
   = [''12 Street JAMES RD'']"
  by (simp add: clean_data_def npi_match_def is_digit_def standardize_address_def lower_def
      lower_char_def is_word_char_def)

end
